theory Spec2Isabelle
  imports Main "HOL-Library.Product_Lexorder"
begin

section \<open>The minesweeper knowledge base of \<^verbatim>\<open>minesweeper.py\<close>\<close>

text \<open>
  A shallow embedding of the classes \<^verbatim>\<open>Sentence\<close> and \<^verbatim>\<open>MinesweeperAI\<close>.
  A cell is a pair of Python integers. A Python \<^verbatim>\<open>set\<close> of cells is a HOL set; the
  source only ever builds finite ones. The list \<^verbatim>\<open>self.knowledge\<close> holds mutable
  \<^verbatim>\<open>Sentence\<close> objects: it is modelled as a list of sentence values, an object being
  identified with its position in the list (the source only appends to the list, so a
  position never changes its object).
\<close>

type_synonym cell = "int \<times> int"

subsection \<open>Class Sentence\<close>

record sentence =
  cells :: "cell set"
  count :: int

text \<open>\<^verbatim>\<open>Sentence.__eq__\<close>\<close>

definition sentence_eq :: "sentence \<Rightarrow> sentence \<Rightarrow> bool" where
  "sentence_eq a b \<longleftrightarrow> cells a = cells b \<and> count a = count b"

text \<open>\<^verbatim>\<open>known_mines\<close> and \<^verbatim>\<open>known_safes\<close> return the cell set or \<^verbatim>\<open>None\<close>.\<close>

definition known_mines :: "sentence \<Rightarrow> cell set option" where
  "known_mines s = (if int (card (cells s)) = count s then Some (cells s) else None)"

definition known_safes :: "sentence \<Rightarrow> cell set option" where
  "known_safes s = (if count s = 0 then Some (cells s) else None)"

text \<open>
  How Python reads such a result as a condition, in \<^verbatim>\<open>if new_mines:\<close>: \<^verbatim>\<open>None\<close>
  and the empty set are false.
\<close>

fun truthy :: "cell set option \<Rightarrow> bool" where
  "truthy None = False"
| "truthy (Some S) = (S \<noteq> {})"

text \<open>
  \<^verbatim>\<open>Sentence.mark_mine\<close> and \<^verbatim>\<open>Sentence.mark_safe\<close>. The source assigns a
  reduced copy of the set to \<^verbatim>\<open>self.cells\<close>; no set object is ever changed in place.
\<close>

definition sentence_mark_mine :: "cell \<Rightarrow> sentence \<Rightarrow> sentence" where
  "sentence_mark_mine c s =
     (if c \<in> cells s then s\<lparr>cells := cells s - {c}, count := count s - 1\<rparr> else s)"

definition sentence_mark_safe :: "cell \<Rightarrow> sentence \<Rightarrow> sentence" where
  "sentence_mark_safe c s =
     (if c \<in> cells s then s\<lparr>cells := cells s - {c}\<rparr> else s)"

subsection \<open>Class MinesweeperAI: state\<close>

record state =
  height :: int
  width :: int
  moves_made :: "cell set"
  mines :: "cell set"
  safes :: "cell set"
  knowledge :: "sentence list"
  KB_has_changed :: bool

definition init :: "int \<Rightarrow> int \<Rightarrow> state" where
  "init h w = \<lparr>height = h, width = w, moves_made = {}, mines = {}, safes = {},
     knowledge = [], KB_has_changed = False\<rparr>"

text \<open>\<^verbatim>\<open>self.empty = Sentence(set(), 0)\<close>\<close>

definition empty_sentence :: sentence where
  "empty_sentence = \<lparr>cells = {}, count = 0\<rparr>"

text \<open>
  \<^verbatim>\<open>all_possible_moves\<close> is computed once from height and width and never written
  again.
\<close>

definition all_possible_moves :: "state \<Rightarrow> cell set" where
  "all_possible_moves st =
     set (concat (map (\<lambda>i. map (\<lambda>j. (i, j)) [0 .. width st - 1]) [0 .. height st - 1]))"

text \<open>
  Iterating over a Python set visits every element once, in an order the language does
  not fix. The model visits them in increasing order; \<open>mark_safes_any_order\<close>,
  \<open>mark_mines_any_order\<close> and \<open>clean_up_any_order\<close> below show that what is computed
  does not depend on that choice.
\<close>

definition iter :: "cell set \<Rightarrow> cell list" where
  "iter S = sorted_list_of_set S"

subsection \<open>Marking\<close>

definition mark_mine :: "cell \<Rightarrow> state \<Rightarrow> state" where
  "mark_mine c st =
     (if c \<notin> mines st
      then st\<lparr>mines := insert c (mines st), KB_has_changed := True,
              knowledge := map (sentence_mark_mine c) (knowledge st)\<rparr>
      else st\<lparr>KB_has_changed := False\<rparr>)"

definition mark_safe :: "cell \<Rightarrow> state \<Rightarrow> state" where
  "mark_safe c st =
     (if c \<notin> mines st
      then st\<lparr>safes := insert c (safes st), KB_has_changed := True,
              knowledge := map (sentence_mark_safe c) (knowledge st)\<rparr>
      else st\<lparr>KB_has_changed := False\<rparr>)"

definition mark_safes :: "cell set \<Rightarrow> state \<Rightarrow> state" where
  "mark_safes new_safes st =
     fold (\<lambda>a st. if a \<notin> safes st then mark_safe a st else st) (iter new_safes) st"

definition mark_mines :: "cell set \<Rightarrow> state \<Rightarrow> state" where
  "mark_mines new_mines st =
     fold (\<lambda>m st. if m \<notin> mines st then mark_mine m st else st) (iter new_mines) st"

subsection \<open>Utilities\<close>

definition are_identicals :: "sentence \<Rightarrow> sentence \<Rightarrow> bool" where
  "are_identicals s1 s2 = sentence_eq s1 s2"

definition is_not_empty :: "sentence \<Rightarrow> bool" where
  "is_not_empty s = (\<not> sentence_eq s empty_sentence)"

text \<open>
  \<^verbatim>\<open>neighbors\<close>: the two nested \<^verbatim>\<open>range\<close> loops, the cell itself skipped, the
  board bounds tested.
\<close>

definition neighbors :: "state \<Rightarrow> cell \<Rightarrow> cell set" where
  "neighbors st c =
     set (concat (map (\<lambda>i. concat (map (\<lambda>j.
            if (i, j) = c then []
            else if 0 \<le> i \<and> i < height st \<and> 0 \<le> j \<and> j < width st then [(i, j)]
            else [])
          [snd c - 1 .. snd c + 1]))
        [fst c - 1 .. fst c + 1]))"

text \<open>
  \<^verbatim>\<open>clean_up\<close> returns a new sentence or \<^verbatim>\<open>None\<close> and may mark cells on the way.
  The loop reads \<^verbatim>\<open>self.safes\<close> and \<^verbatim>\<open>self.mines\<close>, which it does not change.
\<close>

definition clean_up :: "cell set \<Rightarrow> int \<Rightarrow> state \<Rightarrow> sentence option \<times> state" where
  "clean_up cs n st =
     (let (trans_cells, cnt) =
            fold (\<lambda>c (t, k).
                    if c \<in> safes st then (t - {c}, k)
                    else if c \<in> mines st then (t - {c}, k - 1)
                    else (t, k))
                 (iter cs) (cs, n)
      in if trans_cells \<noteq> {}
         then (if cnt = 0 then (None, mark_safes trans_cells st)
               else if int (card trans_cells) = cnt then (None, mark_mines trans_cells st)
               else (Some \<lparr>cells = trans_cells, count = cnt\<rparr>, st))
         else (None, st))"

text \<open>
  \<^verbatim>\<open>in_knowledge\<close>: \<^verbatim>\<open>any\<close> over the list of the sentences equal to the given
  one; a \<^verbatim>\<open>Sentence\<close> object is true, so this asks whether that list is non-empty.
\<close>

definition in_knowledge :: "sentence \<Rightarrow> state \<Rightarrow> bool" where
  "in_knowledge s st = (filter (\<lambda>x. sentence_eq s x) (knowledge st) \<noteq> [])"

text \<open>
  \<^verbatim>\<open>add_if_new\<close>. \<^verbatim>\<open>add_inferred_sentence\<close> passes it whatever \<^verbatim>\<open>clean_up\<close>
  returned, also \<^verbatim>\<open>None\<close>. There \<^verbatim>\<open>None.__eq__(s)\<close> is \<^verbatim>\<open>NotImplemented\<close>,
  which is true as a filter condition (Python before 3.14), so \<^verbatim>\<open>in_knowledge(None)\<close>
  holds for a non-empty knowledge list and nothing is appended. The knowledge list is
  non-empty at every such call, because a pair of stored sentences is being processed
  (\<open>unique_pairs_bounds\<close> below); the branch of an empty list with \<^verbatim>\<open>None\<close>, in which
  Python would append \<^verbatim>\<open>None\<close>, is therefore never taken and is modelled as no change.
\<close>

definition add_if_new :: "sentence option \<Rightarrow> state \<Rightarrow> state" where
  "add_if_new so st =
     (case so of
        None \<Rightarrow> st
      | Some s \<Rightarrow>
          if length (knowledge st) = 0
          then st\<lparr>KB_has_changed := True, knowledge := knowledge st @ [s]\<rparr>
          else if \<not> in_knowledge s st
          then st\<lparr>KB_has_changed := True, knowledge := knowledge st @ [s]\<rparr>
          else st)"

definition add_new_sentence :: "cell \<Rightarrow> int \<Rightarrow> state \<Rightarrow> state" where
  "add_new_sentence c n st =
     (let (so, st') = clean_up (neighbors st c) n st
      in case so of Some s \<Rightarrow> add_if_new (Some s) st' | None \<Rightarrow> st')"

subsection \<open>Local resolution\<close>

text \<open>
  \<^verbatim>\<open>mark_additional_cells\<close> walks the knowledge list while the marking it triggers
  rewrites the sentences of that list: each sentence is read when its turn comes.
\<close>

definition mark_additional_step :: "nat \<Rightarrow> state \<Rightarrow> state" where
  "mark_additional_step i st =
     (let s = knowledge st ! i;
          new_mines = known_mines s;
          new_safes = known_safes s
      in if truthy new_mines
         then mark_mines (the new_mines) (st\<lparr>KB_has_changed := True\<rparr>)
         else if truthy new_safes
         then mark_safes (the new_safes) (st\<lparr>KB_has_changed := True\<rparr>)
         else st)"

definition mark_additional_cells :: "state \<Rightarrow> state" where
  "mark_additional_cells st = fold mark_additional_step [0 ..< length (knowledge st)] st"

subsection \<open>Pairwise inference\<close>

text \<open>\<^verbatim>\<open>itertools.combinations(xs, 2)\<close>\<close>

fun combinations2 :: "'a list \<Rightarrow> ('a \<times> 'a) list" where
  "combinations2 [] = []"
| "combinations2 (x # xs) = map (Pair x) xs @ combinations2 xs"

text \<open>
  \<^verbatim>\<open>unique_pairs\<close> builds its list of pairs of sentence objects before the loop of
  \<^verbatim>\<open>add_inferred_sentence\<close> starts; the model keeps the positions of the two objects.
\<close>

definition unique_pairs :: "state \<Rightarrow> (nat \<times> nat) list" where
  "unique_pairs st =
     filter (\<lambda>(i, j). \<not> are_identicals (knowledge st ! i) (knowledge st ! j))
       (combinations2
          (filter (\<lambda>i. is_not_empty (knowledge st ! i)) [0 ..< length (knowledge st)]))"

definition infer_pair :: "nat \<times> nat \<Rightarrow> state \<Rightarrow> state" where
  "infer_pair p st =
     (let s1 = knowledge st ! fst p; s2 = knowledge st ! snd p
      in if cells s1 \<subset> cells s2
         then (let (sent1, st') = clean_up (cells s2 - cells s1) (count s2 - count s1) st
               in add_if_new sent1 st')
         else if cells s2 \<subset> cells s1
         then (let (sent2, st') = clean_up (cells s1 - cells s2) (count s1 - count s2) st
               in add_if_new sent2 st')
         else st)"

definition add_inferred_sentence :: "state \<Rightarrow> state" where
  "add_inferred_sentence st =
     (let pairs = unique_pairs st
      in if pairs \<noteq> [] then fold infer_pair pairs st else st)"

subsection \<open>Clue ingestion and the fixed-point loop\<close>

text \<open>
  The \<^verbatim>\<open>while self.KB_has_changed\<close> loop of \<^verbatim>\<open>add_knowledge\<close>. Nothing in the
  source bounds its iterations, so the result is an option: \<open>None\<close> is a loop that
  does not return.
\<close>

partial_function (option) fixpoint_loop :: "state \<Rightarrow> state option" where
  "fixpoint_loop st =
     (if KB_has_changed st
      then fixpoint_loop
             (add_inferred_sentence (mark_additional_cells (st\<lparr>KB_has_changed := False\<rparr>)))
      else Some st)"

declare fixpoint_loop.simps [code]

definition add_knowledge :: "cell \<Rightarrow> int \<Rightarrow> state \<Rightarrow> state option" where
  "add_knowledge c n st =
     fixpoint_loop
       (add_inferred_sentence
         (mark_additional_cells
           (add_new_sentence c n
             (mark_safe c (st\<lparr>moves_made := insert c (moves_made st)\<rparr>)))))"

subsection \<open>Move selection\<close>

text \<open>
  \<^verbatim>\<open>set.pop\<close> removes and returns an arbitrary element of a non-empty set. The
  model returns the least one; the theorems below use of it only that it belongs to the
  set. Both queries pop from a set built for the occasion and return the object
  untouched, which the model makes explicit by returning the state as well.
\<close>

definition set_pop :: "cell set \<Rightarrow> cell" where
  "set_pop S = hd (iter S)"

definition make_safe_move :: "state \<Rightarrow> cell option \<times> state" where
  "make_safe_move st =
     (let safe_moves = safes st - moves_made st
      in if card safe_moves > 0 then (Some (set_pop safe_moves), st) else (None, st))"

definition make_random_move :: "state \<Rightarrow> cell option \<times> state" where
  "make_random_move st =
     (let random_move = all_possible_moves st - moves_made st - mines st
      in if card random_move > 0 then (Some (set_pop random_move), st) else (None, st))"

subsection \<open>The public operations\<close>

datatype operation =
    Observe cell int
  | Mark_Mine cell
  | Mark_Safe cell
  | Safe_Move
  | Random_Move

fun exec :: "operation \<Rightarrow> state \<Rightarrow> state option" where
  "exec (Observe c n) st = add_knowledge c n st"
| "exec (Mark_Mine c) st = Some (mark_mine c st)"
| "exec (Mark_Safe c) st = Some (mark_safe c st)"
| "exec Safe_Move st = Some (snd (make_safe_move st))"
| "exec Random_Move st = Some (snd (make_random_move st))"

fun run :: "operation list \<Rightarrow> state \<Rightarrow> state option" where
  "run [] st = Some st"
| "run (op # ops) st = (case exec op st of None \<Rightarrow> None | Some st' \<Rightarrow> run ops st')"

section \<open>Notions used to state and prove the properties\<close>

text \<open>
  What the loop of \<^verbatim>\<open>clean_up\<close> leaves of a candidate: the cells that are neither
  known safe nor known mines, and the count less one for every cell that is a known mine
  (a cell that is also known safe is taken by the first branch and costs nothing).
\<close>

definition remaining_cells :: "cell set \<Rightarrow> state \<Rightarrow> cell set" where
  "remaining_cells cs st = cs - (safes st \<union> mines st)"

definition remaining_count :: "cell set \<Rightarrow> int \<Rightarrow> state \<Rightarrow> int" where
  "remaining_count cs n st = n - int (card (cs \<inter> (mines st - safes st)))"

text \<open>The effect on one sentence of marking a set of cells safe, or as mines.\<close>

definition shrink_safe :: "cell set \<Rightarrow> sentence \<Rightarrow> sentence" where
  "shrink_safe X s = s\<lparr>cells := cells s - X\<rparr>"

definition shrink_mine :: "cell set \<Rightarrow> sentence \<Rightarrow> sentence" where
  "shrink_mine X s = s\<lparr>cells := cells s - X, count := count s - int (card (cells s \<inter> X))\<rparr>"

text \<open>The bodies of the three loops over a Python set.\<close>

abbreviation mark_safes_step :: "cell \<Rightarrow> state \<Rightarrow> state" where
  "mark_safes_step \<equiv> (\<lambda>a st. if a \<notin> safes st then mark_safe a st else st)"

abbreviation mark_mines_step :: "cell \<Rightarrow> state \<Rightarrow> state" where
  "mark_mines_step \<equiv> (\<lambda>m st. if m \<notin> mines st then mark_mine m st else st)"

abbreviation clean_step :: "state \<Rightarrow> cell \<Rightarrow> cell set \<times> int \<Rightarrow> cell set \<times> int" where
  "clean_step st \<equiv> (\<lambda>c (t, k).
                    if c \<in> safes st then (t - {c}, k)
                    else if c \<in> mines st then (t - {c}, k - 1)
                    else (t, k))"

text \<open>
  The board cells about which nothing is known yet, and the invariant of the knowledge
  base. \<open>sound Ms st\<close> says that every stored sentence speaks of undetermined board
  cells only and that, for every mine layout \<open>M\<close> in \<open>Ms\<close>, the state tells the
  truth about \<open>M\<close>: known mines are mines of \<open>M\<close>, known safes are not, and every
  sentence counts the mines of \<open>M\<close> among its cells. With \<open>Ms = {}\<close> only the first
  part is left.
\<close>

definition undetermined :: "state \<Rightarrow> cell set" where
  "undetermined st = all_possible_moves st - (safes st \<union> mines st)"

definition sound :: "cell set set \<Rightarrow> state \<Rightarrow> bool" where
  "sound Ms st \<longleftrightarrow>
     (\<forall>s \<in> set (knowledge st). cells s \<subseteq> undetermined st) \<and>
     (\<forall>M \<in> Ms. mines st \<subseteq> M \<and> safes st \<inter> M = {} \<and>
        (\<forall>s \<in> set (knowledge st). count s = int (card (cells s \<inter> M))))"

text \<open>
  A public operation agrees with a mine layout \<open>M\<close> when it says nothing false about
  it: a clue is given for a cell that is no mine and is the number of mines of \<open>M\<close>
  among its neighbours (what \<^verbatim>\<open>Minesweeper.nearby_mines\<close> computes on a board of the
  same size), a cell marked as a mine is one, a cell marked safe is none.
\<close>

fun agrees :: "cell set \<Rightarrow> state \<Rightarrow> operation \<Rightarrow> bool" where
  "agrees M st (Observe c n) \<longleftrightarrow> c \<notin> M \<and> n = int (card (neighbors st c \<inter> M))"
| "agrees M st (Mark_Mine c) \<longleftrightarrow> c \<in> M"
| "agrees M st (Mark_Safe c) \<longleftrightarrow> c \<notin> M"
| "agrees M st Safe_Move \<longleftrightarrow> True"
| "agrees M st Random_Move \<longleftrightarrow> True"

text \<open>
  What every step of the deduction does to a sound state: the board and the moves stay,
  the registries and the knowledge list only grow, no cell enters both registries, the
  state is unchanged unless the change flag is set, and a flag that was newly set means
  progress: a cell was determined or a sentence not stored before was added.
\<close>

definition step_rel :: "state \<Rightarrow> state \<Rightarrow> bool" where
  "step_rel st st' \<longleftrightarrow>
     height st' = height st \<and> width st' = width st \<and> moves_made st' = moves_made st \<and>
     safes st \<subseteq> safes st' \<and> mines st \<subseteq> mines st' \<and>
     length (knowledge st) \<le> length (knowledge st') \<and>
     safes st' \<inter> mines st' = safes st \<inter> mines st \<and>
     (st' = st \<or> KB_has_changed st') \<and>
     (undetermined st' = undetermined st \<longrightarrow> set (knowledge st) \<subseteq> set (knowledge st')) \<and>
     (KB_has_changed st' \<longrightarrow> KB_has_changed st \<or> undetermined st' \<subset> undetermined st
        \<or> set (knowledge st) \<subset> set (knowledge st'))"

text \<open>
  One iteration of the \<^verbatim>\<open>while\<close> loop, and the state in which \<^verbatim>\<open>add_knowledge\<close>
  reaches the loop.
\<close>

definition loop_body :: "state \<Rightarrow> state" where
  "loop_body st = add_inferred_sentence (mark_additional_cells (st\<lparr>KB_has_changed := False\<rparr>))"

definition entry_state :: "cell \<Rightarrow> int \<Rightarrow> state \<Rightarrow> state" where
  "entry_state c n st =
     add_inferred_sentence (mark_additional_cells
       (add_new_sentence c n (mark_safe c (st\<lparr>moves_made := insert c (moves_made st)\<rparr>))))"

text \<open>
  The sentences that are true of a layout \<open>M\<close> on the board of a state: finitely many.
  An iteration that sets the flag again is smaller in \<open>loop_order\<close>: fewer undetermined
  cells, or as many and fewer true sentences not yet stored.
\<close>

definition sentence_space :: "cell set \<Rightarrow> state \<Rightarrow> sentence set" where
  "sentence_space M st =
     (\<lambda>C. \<lparr>cells = C, count = int (card (C \<inter> M))\<rparr>) ` Pow (all_possible_moves st)"

definition loop_order :: "cell set \<Rightarrow> (state \<times> state) set" where
  "loop_order M =
     inv_image (finite_psubset <*lex*> finite_psubset)
       (\<lambda>st. (undetermined st, sentence_space M st - set (knowledge st)))"

text \<open>
  A sentence from which \<^verbatim>\<open>mark_additional_cells\<close> concludes nothing: it has no cell,
  or its count is neither zero nor the number of its cells.
\<close>

definition unresolved :: "sentence \<Rightarrow> bool" where
  "unresolved s \<longleftrightarrow> cells s = {} \<or> (count s \<noteq> 0 \<and> int (card (cells s)) \<noteq> count s)"

definition grows :: "state \<Rightarrow> state \<Rightarrow> bool" where
  "grows st st' \<longleftrightarrow>
     safes st \<subseteq> safes st' \<and> mines st \<subseteq> mines st' \<and> moves_made st \<subseteq> moves_made st'"

subsection \<open>Example states\<close>

text \<open>
  A 3 by 3 board with its only mine at \<open>(0, 0)\<close>, after the clues \<open>(1,1) -> 1\<close>,
  then \<open>(0,1) -> 1\<close>, then \<open>(1,0) -> 1\<close>.
\<close>

definition kb_3x3_1 :: state where
  "kb_3x3_1 = \<lparr>height = 3, width = 3, moves_made = {(1, 1)}, mines = {}, safes = {(1, 1)},
     knowledge = [\<lparr>cells = {(0, 0), (0, 1), (0, 2), (1, 0), (1, 2), (2, 0), (2, 1), (2, 2)},
                   count = 1\<rparr>],
     KB_has_changed = False\<rparr>"

definition kb_3x3_2 :: state where
  "kb_3x3_2 = \<lparr>height = 3, width = 3, moves_made = {(0, 1), (1, 1)}, mines = {},
     safes = {(2, 2), (2, 1), (2, 0), (0, 1), (1, 1)},
     knowledge = [\<lparr>cells = {(0, 0), (0, 2), (1, 0), (1, 2)}, count = 1\<rparr>,
                  \<lparr>cells = {(0, 0), (0, 2), (1, 0), (1, 2)}, count = 1\<rparr>],
     KB_has_changed = False\<rparr>"

definition kb_3x3_3 :: state where
  "kb_3x3_3 = \<lparr>height = 3, width = 3, moves_made = {(1, 0), (0, 1), (1, 1)},
     mines = {(0, 0)},
     safes = {(1, 2), (0, 2), (1, 0), (2, 2), (2, 1), (2, 0), (0, 1), (1, 1)},
     knowledge = [\<lparr>cells = {}, count = 0\<rparr>, \<lparr>cells = {}, count = 0\<rparr>],
     KB_has_changed = False\<rparr>"

text \<open>
  A 1 by 3 board with its only mine at \<open>(0, 2)\<close>, after the clue \<open>(0,1) -> 1\<close> and
  then \<open>(0,0) -> 0\<close>.
\<close>

definition kb_1x3_1 :: state where
  "kb_1x3_1 = \<lparr>height = 1, width = 3, moves_made = {(0, 1)}, mines = {}, safes = {(0, 1)},
     knowledge = [\<lparr>cells = {(0, 0), (0, 2)}, count = 1\<rparr>], KB_has_changed = False\<rparr>"

definition kb_1x3_2 :: state where
  "kb_1x3_2 = \<lparr>height = 1, width = 3, moves_made = {(0, 0), (0, 1)}, mines = {(0, 2)},
     safes = {(0, 0), (0, 1)}, knowledge = [\<lparr>cells = {}, count = 0\<rparr>],
     KB_has_changed = False\<rparr>"

text \<open>A 1 by 2 board after the clue \<open>(0,0) -> 0\<close>.\<close>

definition kb_1x2 :: state where
  "kb_1x2 = \<lparr>height = 1, width = 2, moves_made = {(0, 0)}, mines = {},
     safes = {(0, 1), (0, 0)}, knowledge = [], KB_has_changed = False\<rparr>"

text \<open>
  A 3 by 3 board on which the sentences \<open>{(0,0), (0,1)} = 1\<close> and
  \<open>{(0,0), (0,1), (0,2)} = 2\<close> are stored, and the same after one pass of pairwise
  inference.
\<close>

definition kb_pair :: state where
  "kb_pair = \<lparr>height = 3, width = 3, moves_made = {(1, 1)}, mines = {}, safes = {(1, 1)},
     knowledge = [\<lparr>cells = {(0, 0), (0, 1)}, count = 1\<rparr>,
                  \<lparr>cells = {(0, 0), (0, 1), (0, 2)}, count = 2\<rparr>],
     KB_has_changed = False\<rparr>"

definition kb_pair_after :: state where
  "kb_pair_after = \<lparr>height = 3, width = 3, moves_made = {(1, 1)}, mines = {(0, 2)},
     safes = {(1, 1)},
     knowledge = [\<lparr>cells = {(0, 0), (0, 1)}, count = 1\<rparr>,
                  \<lparr>cells = {(0, 0), (0, 1)}, count = 1\<rparr>],
     KB_has_changed = True\<rparr>"

text \<open>A state in which \<open>(0, 0)\<close> is a known mine, and one in which it is known safe.\<close>

definition kb_mine :: state where
  "kb_mine = \<lparr>height = 3, width = 3, moves_made = {}, mines = {(0, 0)}, safes = {},
     knowledge = [], KB_has_changed = True\<rparr>"

definition kb_safe :: state where
  "kb_safe = \<lparr>height = 3, width = 3, moves_made = {(1, 1)}, mines = {},
     safes = {(1, 1), (2, 2)}, knowledge = [], KB_has_changed = False\<rparr>"

section \<open>Lemmas\<close>

subsection \<open>Sentences and iteration over sets\<close>

lemma sentence_eq_iff: "sentence_eq a b \<longleftrightarrow> a = b"
  by (cases a, cases b) (auto simp: sentence_eq_def)

lemma set_iter: "finite S \<Longrightarrow> set (iter S) = S"
  by (simp add: iter_def)

lemma distinct_iter: "distinct (iter S)"
  by (simp add: iter_def)

lemma iter_infinite: "\<not> finite S \<Longrightarrow> iter S = []"
  by (simp add: iter_def)

lemma sentence_mark_safe_alt: "sentence_mark_safe c s = s\<lparr>cells := cells s - {c}\<rparr>"
  by (cases s) (auto simp: sentence_mark_safe_def)

lemma sentence_mark_mine_alt:
  "sentence_mark_mine c s =
     s\<lparr>cells := cells s - {c}, count := count s - (if c \<in> cells s then 1 else 0)\<rparr>"
  by (cases s) (auto simp: sentence_mark_mine_def)

lemma shrink_safe_empty [simp]: "shrink_safe {} s = s"
  by (simp add: shrink_safe_def)

lemma shrink_mine_empty [simp]: "shrink_mine {} s = s"
  by (simp add: shrink_mine_def)

lemma shrink_safe_insert:
  "sentence_mark_safe c (shrink_safe X s) = shrink_safe (insert c X) s"
  by (cases s) (auto simp: sentence_mark_safe_alt shrink_safe_def)

lemma shrink_mine_insert:
  assumes "finite X" "c \<notin> X"
  shows "sentence_mark_mine c (shrink_mine X s) = shrink_mine (insert c X) s"
proof -
  have fin: "finite (cells s \<inter> X)" using assms by simp
  have "int (card (cells s \<inter> insert c X)) =
        int (card (cells s \<inter> X)) + (if c \<in> cells s then 1 else 0)"
    using assms fin by (auto simp: Int_insert_right)
  moreover have "cells s - X - {c} = cells s - insert c X" by auto
  ultimately show ?thesis
    using assms by (cases s) (auto simp: sentence_mark_mine_alt shrink_mine_def)
qed

subsection \<open>Marking the cells of a list, in any order\<close>

lemma mark_safes_fold_frame:
  "height (fold mark_safes_step xs st) = height st"
  "width (fold mark_safes_step xs st) = width st"
  "moves_made (fold mark_safes_step xs st) = moves_made st"
  "mines (fold mark_safes_step xs st) = mines st"
  by (induction xs arbitrary: st; simp add: mark_safe_def)+

lemma mark_safes_fold_safes:
  "safes (fold mark_safes_step xs st) = safes st \<union> (set xs - mines st)"
proof (induction xs arbitrary: st)
  case Nil show ?case by simp
next
  case (Cons a xs)
  have "mines (mark_safes_step a st) = mines st" by (simp add: mark_safe_def)
  then show ?case using Cons.IH [of "mark_safes_step a st"]
    by (auto simp: mark_safe_def)
qed

lemma mark_safes_fold_knowledge:
  "knowledge (fold mark_safes_step xs st) =
     map (shrink_safe (set xs - safes st - mines st)) (knowledge st)"
proof (induction xs arbitrary: st)
  case Nil show ?case by (simp add: map_idI)
next
  case (Cons a xs)
  let ?st = "mark_safes_step a st"
  have m: "mines ?st = mines st" by (simp add: mark_safe_def)
  show ?case
  proof (cases "a \<notin> safes st \<and> a \<notin> mines st")
    case True
    then have s: "safes ?st = insert a (safes st)"
      and k: "knowledge ?st = map (sentence_mark_safe a) (knowledge st)"
      by (simp_all add: mark_safe_def)
    have "shrink_safe (set xs - insert a (safes st) - mines st) (sentence_mark_safe a s) =
          shrink_safe (set (a # xs) - safes st - mines st) s" for s
      using True by (cases s) (auto simp: shrink_safe_def sentence_mark_safe_alt)
    then show ?thesis using Cons.IH [of ?st] s k m by simp
  next
    case False
    then have "safes ?st = safes st \<and> knowledge ?st = knowledge st"
      by (auto simp: mark_safe_def)
    moreover from False have "set (a # xs) - safes st - mines st = set xs - safes st - mines st"
      by auto
    ultimately show ?thesis using Cons.IH [of ?st] m by simp
  qed
qed

lemma mark_safes_fold_flag:
  assumes "set xs \<inter> mines st = {}"
  shows "KB_has_changed (fold mark_safes_step xs st) =
           (if set xs \<subseteq> safes st then KB_has_changed st else True)"
  using assms
proof (induction xs arbitrary: st)
  case Nil show ?case by simp
next
  case (Cons a xs)
  let ?st = "mark_safes_step a st"
  have m: "mines ?st = mines st" by (simp add: mark_safe_def)
  from Cons.prems have a: "a \<notin> mines st" and xs: "set xs \<inter> mines ?st = {}"
    using m by auto
  show ?case
  proof (cases "a \<in> safes st")
    case True
    then show ?thesis using Cons.IH [OF xs] by simp
  next
    case False
    with a have "KB_has_changed ?st" "safes ?st = insert a (safes st)"
      by (simp_all add: mark_safe_def)
    with False show ?thesis using Cons.IH [OF xs] by auto
  qed
qed

lemma mark_mines_fold_frame:
  "height (fold mark_mines_step xs st) = height st"
  "width (fold mark_mines_step xs st) = width st"
  "moves_made (fold mark_mines_step xs st) = moves_made st"
  "safes (fold mark_mines_step xs st) = safes st"
  by (induction xs arbitrary: st; simp add: mark_mine_def)+

lemma mark_mines_fold_mines:
  "mines (fold mark_mines_step xs st) = mines st \<union> set xs"
  by (induction xs arbitrary: st) (auto simp: mark_mine_def)

lemma mark_mines_fold_flag:
  "KB_has_changed (fold mark_mines_step xs st) =
           (if set xs \<subseteq> mines st then KB_has_changed st else True)"
proof (induction xs arbitrary: st)
  case Nil show ?case by simp
next
  case (Cons a xs)
  show ?case using Cons.IH [of "mark_mines_step a st"]
    by (auto simp: mark_mine_def)
qed

lemma mark_mines_fold_knowledge:
  assumes "distinct xs"
  shows "knowledge (fold mark_mines_step xs st) =
     map (shrink_mine (set xs - mines st)) (knowledge st)"
  using assms
proof (induction xs arbitrary: st)
  case Nil show ?case by (simp add: map_idI)
next
  case (Cons a xs)
  let ?st = "mark_mines_step a st"
  from Cons.prems have d: "distinct xs" and axs: "a \<notin> set xs" by auto
  show ?case
  proof (cases "a \<notin> mines st")
    case True
    then have s: "mines ?st = insert a (mines st)"
      and k: "knowledge ?st = map (sentence_mark_mine a) (knowledge st)"
      by (simp_all add: mark_mine_def)
    let ?X = "set xs - insert a (mines st)"
    have X: "set (a # xs) - mines st = insert a ?X" using True by auto
    have "shrink_mine ?X (sentence_mark_mine a s) = shrink_mine (insert a ?X) s" for s
    proof -
      have "finite ?X" "a \<notin> ?X" by auto
      have e1: "cells s \<inter> insert a ?X = cells s \<inter> {a} \<union> (cells s - {a}) \<inter> ?X" by auto
      have "card (cells s \<inter> insert a ?X) =
           card (cells s \<inter> {a}) + card ((cells s - {a}) \<inter> ?X)"
        unfolding e1 by (rule card_Un_disjoint) auto
      moreover have "card (cells s \<inter> {a}) = (if a \<in> cells s then 1 else 0)" by auto
      ultimately have "int (card (cells s \<inter> insert a ?X)) =
          (if a \<in> cells s then 1 else 0) + int (card ((cells s - {a}) \<inter> ?X))"
        by simp
      moreover have "cells s - {a} - ?X = cells s - insert a ?X" by auto
      ultimately show ?thesis
        by (cases s) (auto simp: sentence_mark_mine_alt shrink_mine_def)
    qed
    then show ?thesis using Cons.IH [OF d, of ?st] s k X by simp
  next
    case False
    then have "mines ?st = mines st \<and> knowledge ?st = knowledge st"
      by auto
    moreover from False have "set (a # xs) - mines st = set xs - mines st"
      by auto
    ultimately show ?thesis using Cons.IH [OF d, of ?st] by simp
  qed
qed

subsection \<open>Marking the cells of a set\<close>

lemma mark_safes_frame:
  "height (mark_safes S st) = height st"
  "width (mark_safes S st) = width st"
  "moves_made (mark_safes S st) = moves_made st"
  "mines (mark_safes S st) = mines st"
  by (simp_all add: mark_safes_def mark_safes_fold_frame)

lemma mark_safes_safes:
  "finite S \<Longrightarrow> safes (mark_safes S st) = safes st \<union> (S - mines st)"
  by (simp add: mark_safes_def mark_safes_fold_safes set_iter)

lemma mark_safes_knowledge:
  "finite S \<Longrightarrow> knowledge (mark_safes S st) =
     map (shrink_safe (S - safes st - mines st)) (knowledge st)"
  by (simp add: mark_safes_def mark_safes_fold_knowledge set_iter)

lemma mark_safes_flag:
  "finite S \<Longrightarrow> S \<inter> mines st = {} \<Longrightarrow>
     KB_has_changed (mark_safes S st) = (if S \<subseteq> safes st then KB_has_changed st else True)"
  by (simp add: mark_safes_def mark_safes_fold_flag set_iter)

lemma mark_mines_frame:
  "height (mark_mines S st) = height st"
  "width (mark_mines S st) = width st"
  "moves_made (mark_mines S st) = moves_made st"
  "safes (mark_mines S st) = safes st"
  by (simp_all add: mark_mines_def mark_mines_fold_frame)

lemma mark_mines_mines:
  "finite S \<Longrightarrow> mines (mark_mines S st) = mines st \<union> S"
  by (simp add: mark_mines_def mark_mines_fold_mines set_iter)

lemma mark_mines_knowledge:
  "finite S \<Longrightarrow> knowledge (mark_mines S st) =
     map (shrink_mine (S - mines st)) (knowledge st)"
  by (simp add: mark_mines_def mark_mines_fold_knowledge set_iter distinct_iter)

lemma mark_mines_flag:
  "finite S \<Longrightarrow>
     KB_has_changed (mark_mines S st) = (if S \<subseteq> mines st then KB_has_changed st else True)"
  by (simp add: mark_mines_def mark_mines_fold_flag set_iter)

subsection \<open>Cleanup in closed form\<close>

lemma clean_fold:
  assumes "distinct xs"
  shows "fold (clean_step st) xs (t, k) =
     (t - (set xs \<inter> (safes st \<union> mines st)),
      k - int (card (set xs \<inter> (mines st - safes st))))"
  using assms
proof (induction xs arbitrary: t k)
  case Nil show ?case by simp
next
  case (Cons a xs)
  from Cons.prems have d: "distinct xs" and a: "a \<notin> set xs" by auto
  have c: "card (set (a # xs) \<inter> (mines st - safes st)) =
        (if a \<in> mines st - safes st then 1 else 0) + card (set xs \<inter> (mines st - safes st))"
    using a by (auto simp: Int_insert_left)
  show ?case
  proof (cases "a \<in> safes st")
    case True
    have "t - {a} - set xs \<inter> (safes st \<union> mines st) = t - set (a # xs) \<inter> (safes st \<union> mines st)"
      using True by auto
    with True c show ?thesis using Cons.IH [OF d, of "t - {a}" k] by simp
  next
    case False
    show ?thesis
    proof (cases "a \<in> mines st")
      case True
      have "t - {a} - set xs \<inter> (safes st \<union> mines st) = t - set (a # xs) \<inter> (safes st \<union> mines st)"
        using True by auto
      with True False c show ?thesis using Cons.IH [OF d, of "t - {a}" "k - 1"] by simp
    next
      case mf: False
      have "t - set xs \<inter> (safes st \<union> mines st) = t - set (a # xs) \<inter> (safes st \<union> mines st)"
        using False mf by auto
      with False mf c show ?thesis using Cons.IH [OF d, of t k] by simp
    qed
  qed
qed

lemma clean_up_closed:
  assumes "finite cs"
  shows "clean_up cs n st =
     (if remaining_cells cs st \<noteq> {}
      then (if remaining_count cs n st = 0 then (None, mark_safes (remaining_cells cs st) st)
            else if int (card (remaining_cells cs st)) = remaining_count cs n st
            then (None, mark_mines (remaining_cells cs st) st)
            else (Some \<lparr>cells = remaining_cells cs st, count = remaining_count cs n st\<rparr>, st))
      else (None, st))"
proof -
  have "cs - cs \<inter> (safes st \<union> mines st) = cs - (safes st \<union> mines st)" by auto
  then have "fold (clean_step st) (iter cs) (cs, n) =
     (remaining_cells cs st, remaining_count cs n st)"
    using assms by (simp add: clean_fold distinct_iter set_iter remaining_cells_def remaining_count_def)
  then show ?thesis by (simp add: clean_up_def)
qed

lemma mark_safes_eq:
  assumes "finite S" "S \<inter> (safes st \<union> mines st) = {}"
  shows "mark_safes S st =
     st\<lparr>safes := safes st \<union> S, knowledge := map (shrink_safe S) (knowledge st),
        KB_has_changed := (S \<noteq> {} \<or> KB_has_changed st)\<rparr>"
proof -
  from assms(2) have 1: "S - mines st = S" "S - safes st - mines st = S" "S \<inter> mines st = {}"
    and 2: "S \<subseteq> safes st \<longleftrightarrow> S = {}"
    by auto
  show ?thesis
    by (rule state.equality)
       (simp_all add: mark_safes_frame mark_safes_safes mark_safes_knowledge mark_safes_flag
          assms(1) 1 2)
qed

lemma mark_mines_eq:
  assumes "finite S" "S \<inter> (safes st \<union> mines st) = {}"
  shows "mark_mines S st =
     st\<lparr>mines := mines st \<union> S, knowledge := map (shrink_mine S) (knowledge st),
        KB_has_changed := (S \<noteq> {} \<or> KB_has_changed st)\<rparr>"
proof -
  from assms(2) have 1: "S - mines st = S"
    and 2: "S \<subseteq> mines st \<longleftrightarrow> S = {}"
    by auto
  show ?thesis
    by (rule state.equality)
       (simp_all add: mark_mines_frame mark_mines_mines mark_mines_knowledge mark_mines_flag
          assms(1) 1 2)
qed

text \<open>
  The order in which a set is visited does not matter: any list of the elements gives
  the state the model computes. For \<open>mark_safes\<close> this needs that none of the cells is a
  known mine (otherwise the last cell visited decides the change flag, and only that);
  \<open>clean_up\<close> and \<open>mark_additional_step\<close> call it with such sets only.
\<close>

lemma mark_safes_any_order:
  assumes "set xs = S" and "S \<inter> mines st = {}"
  shows "fold mark_safes_step xs st = mark_safes S st"
proof -
  have fin: "finite S" using assms(1) by auto
  have m: "set xs \<inter> mines st = {}" using assms by simp
  show ?thesis
    by (rule state.equality)
       (simp_all add: mark_safes_fold_frame mark_safes_frame mark_safes_fold_safes mark_safes_safes
          mark_safes_fold_knowledge mark_safes_knowledge mark_safes_fold_flag [OF m]
          mark_safes_flag [OF fin assms(2)] fin assms(1))
qed

lemma mark_mines_any_order:
  assumes "set xs = S" and "distinct xs"
  shows "fold mark_mines_step xs st = mark_mines S st"
proof -
  have fin: "finite S" using assms(1) by auto
  show ?thesis
    by (rule state.equality)
       (simp_all add: mark_mines_fold_frame mark_mines_frame mark_mines_fold_mines mark_mines_mines
          mark_mines_fold_knowledge [OF assms(2)] mark_mines_knowledge mark_mines_fold_flag
          mark_mines_flag fin assms(1))
qed

lemma clean_up_any_order:
  assumes "set xs = cs" and "distinct xs"
  shows "fold (clean_step st) xs (cs, n) = fold (clean_step st) (iter cs) (cs, n)"
proof -
  have "finite cs" using assms(1) by auto
  then show ?thesis
    by (simp add: clean_fold [OF assms(2)] clean_fold [OF distinct_iter] set_iter assms(1))
qed

subsection \<open>The board\<close>

lemma all_possible_moves_iff:
  "(i, j) \<in> all_possible_moves st \<longleftrightarrow> 0 \<le> i \<and> i < height st \<and> 0 \<le> j \<and> j < width st"
  by (auto simp: all_possible_moves_def image_iff)

lemma finite_all_possible_moves: "finite (all_possible_moves st)"
  by (simp add: all_possible_moves_def)

lemma neighbors_iff:
  "(i, j) \<in> neighbors st c \<longleftrightarrow>
     fst c - 1 \<le> i \<and> i \<le> fst c + 1 \<and> snd c - 1 \<le> j \<and> j \<le> snd c + 1 \<and> (i, j) \<noteq> c \<and>
     0 \<le> i \<and> i < height st \<and> 0 \<le> j \<and> j < width st"
  by (auto simp: neighbors_def split: if_splits)

lemma neighbors_subset: "neighbors st c \<subseteq> all_possible_moves st"
  by (auto simp: neighbors_iff all_possible_moves_iff)

lemma all_possible_moves_cong:
  "height st' = height st \<Longrightarrow> width st' = width st \<Longrightarrow>
   all_possible_moves st' = all_possible_moves st"
  by (simp add: all_possible_moves_def)

lemma neighbors_cong:
  "height st' = height st \<Longrightarrow> width st' = width st \<Longrightarrow> neighbors st' c = neighbors st c"
  by (simp add: neighbors_def)

subsection \<open>Steps of the deduction compose\<close>

lemma finite_undetermined: "finite (undetermined st)"
  by (simp add: undetermined_def finite_all_possible_moves)

lemma step_rel_refl: "step_rel st st"
  by (simp add: step_rel_def)

lemma step_rel_frame:
  assumes "step_rel st st'"
  shows "height st' = height st" "width st' = width st" "moves_made st' = moves_made st"
    "safes st \<subseteq> safes st'" "mines st \<subseteq> mines st'"
    "length (knowledge st) \<le> length (knowledge st')"
    "safes st' \<inter> mines st' = safes st \<inter> mines st"
  using assms unfolding step_rel_def by simp_all

lemma step_rel_chg: "step_rel st st' \<Longrightarrow> st' = st \<or> KB_has_changed st'"
  unfolding step_rel_def by simp

lemma step_rel_keep:
  "step_rel st st' \<Longrightarrow> undetermined st' = undetermined st \<Longrightarrow>
   set (knowledge st) \<subseteq> set (knowledge st')"
  unfolding step_rel_def by simp

lemma step_rel_prog:
  "step_rel st st' \<Longrightarrow> KB_has_changed st' \<Longrightarrow>
   KB_has_changed st \<or> undetermined st' \<subset> undetermined st
     \<or> set (knowledge st) \<subset> set (knowledge st')"
  unfolding step_rel_def by simp

lemma step_rel_undetermined:
  assumes "step_rel st st'"
  shows "undetermined st' \<subseteq> undetermined st"
proof -
  have "all_possible_moves st' = all_possible_moves st"
    using step_rel_frame(1,2) [OF assms] by (rule all_possible_moves_cong)
  then have "undetermined st' = all_possible_moves st - (safes st' \<union> mines st')"
    by (simp add: undetermined_def)
  moreover have "all_possible_moves st - (safes st' \<union> mines st') \<subseteq>
      all_possible_moves st - (safes st \<union> mines st)"
    using step_rel_frame(4,5) [OF assms] by (intro Diff_mono Un_mono subset_refl)
  ultimately show ?thesis by (simp add: undetermined_def)
qed

lemma step_rel_trans:
  assumes a: "step_rel st st'" and b: "step_rel st' st''"
  shows "step_rel st st''"
proof -
  have u1: "undetermined st' \<subseteq> undetermined st" and u2: "undetermined st'' \<subseteq> undetermined st'"
    using a b by (simp_all add: step_rel_undetermined)
  have f1: "height st'' = height st" "width st'' = width st" "moves_made st'' = moves_made st"
    using step_rel_frame(1-3) [OF a] step_rel_frame(1-3) [OF b] by simp_all
  have f2: "safes st \<subseteq> safes st''" "mines st \<subseteq> mines st''"
     "length (knowledge st) \<le> length (knowledge st'')"
    using step_rel_frame(4-6) [OF a] step_rel_frame(4-6) [OF b] by (blast, blast, linarith)
  have f3: "safes st'' \<inter> mines st'' = safes st \<inter> mines st"
    using step_rel_frame(7) [OF a] step_rel_frame(7) [OF b] by simp
  have chg: "st'' = st \<or> KB_has_changed st''"
    using step_rel_chg [OF a] step_rel_chg [OF b] by blast
  have k: "undetermined st'' = undetermined st \<longrightarrow> set (knowledge st) \<subseteq> set (knowledge st'')"
  proof
    assume "undetermined st'' = undetermined st"
    with u1 u2 have "undetermined st' = undetermined st" "undetermined st'' = undetermined st'"
      by auto
    then show "set (knowledge st) \<subseteq> set (knowledge st'')"
      using step_rel_keep [OF a] step_rel_keep [OF b] by blast
  qed
  have p: "KB_has_changed st'' \<longrightarrow> KB_has_changed st \<or> undetermined st'' \<subset> undetermined st
        \<or> set (knowledge st) \<subset> set (knowledge st'')"
  proof (intro impI)
    assume f: "KB_has_changed st''"
    show "KB_has_changed st \<or> undetermined st'' \<subset> undetermined st
        \<or> set (knowledge st) \<subset> set (knowledge st'')"
    proof (cases "undetermined st'' = undetermined st")
      case False
      with u1 u2 show ?thesis by auto
    next
      case True
      with u1 u2 have e: "undetermined st' = undetermined st" "undetermined st'' = undetermined st'"
        by auto
      have s: "set (knowledge st) \<subseteq> set (knowledge st')"
          "set (knowledge st') \<subseteq> set (knowledge st'')"
        using step_rel_keep [OF a e(1)] step_rel_keep [OF b e(2)] by simp_all
      have "KB_has_changed st' \<or> set (knowledge st') \<subset> set (knowledge st'')"
        using step_rel_prog [OF b f] e by simp
      moreover have "KB_has_changed st' \<longrightarrow>
          KB_has_changed st \<or> set (knowledge st) \<subset> set (knowledge st')"
        using step_rel_prog [OF a] e by simp
      ultimately show ?thesis using s by blast
    qed
  qed
  show ?thesis unfolding step_rel_def using f1 f2 f3 chg k p by simp
qed

lemma fold_step_rel:
  assumes "P st" and "\<And>x st. x \<in> set xs \<Longrightarrow> P st \<Longrightarrow> P (f x st) \<and> step_rel st (f x st)"
  shows "P (fold f xs st) \<and> step_rel st (fold f xs st)"
  using assms
proof (induction xs arbitrary: st)
  case Nil
  then show ?case by (simp add: step_rel_refl)
next
  case (Cons x xs)
  have 1: "P (f x st) \<and> step_rel st (f x st)" using Cons.prems by simp
  have 2: "P (fold f xs (f x st)) \<and> step_rel (f x st) (fold f xs (f x st))"
    using 1 Cons.prems(2) by (intro Cons.IH) auto
  have "step_rel st (fold f xs (f x st))"
    using 1 2 by (blast intro: step_rel_trans [of st "f x st"])
  with 2 show ?case by simp
qed

subsection \<open>Every step of the deduction keeps the invariant\<close>

lemma soundI:
  assumes "\<And>s. s \<in> set (knowledge st) \<Longrightarrow> cells s \<subseteq> undetermined st"
    and "\<And>M. M \<in> Ms \<Longrightarrow> mines st \<subseteq> M"
    and "\<And>M. M \<in> Ms \<Longrightarrow> safes st \<inter> M = {}"
    and "\<And>M s. M \<in> Ms \<Longrightarrow> s \<in> set (knowledge st) \<Longrightarrow> count s = int (card (cells s \<inter> M))"
  shows "sound Ms st"
  unfolding sound_def using assms by blast

lemma sound_cells: "sound Ms st \<Longrightarrow> s \<in> set (knowledge st) \<Longrightarrow> cells s \<subseteq> undetermined st"
  unfolding sound_def by blast

lemma sound_mines: "sound Ms st \<Longrightarrow> M \<in> Ms \<Longrightarrow> mines st \<subseteq> M"
  unfolding sound_def by blast

lemma sound_safes: "sound Ms st \<Longrightarrow> M \<in> Ms \<Longrightarrow> safes st \<inter> M = {}"
  unfolding sound_def by blast

lemma sound_count:
  "sound Ms st \<Longrightarrow> M \<in> Ms \<Longrightarrow> s \<in> set (knowledge st) \<Longrightarrow>
   count s = int (card (cells s \<inter> M))"
  unfolding sound_def by blast

lemma undetermined_disjoint: "S \<subseteq> undetermined st \<Longrightarrow> S \<inter> (safes st \<union> mines st) = {}"
  unfolding undetermined_def by blast

lemma undetermined_finite: "S \<subseteq> undetermined st \<Longrightarrow> finite S"
  using finite_undetermined by (rule rev_finite_subset)

lemma mark_safes_sound:
  assumes snd: "sound Ms st" and S: "S \<subseteq> undetermined st" and M: "\<And>M. M \<in> Ms \<Longrightarrow> S \<inter> M = {}"
  shows "sound Ms (mark_safes S st) \<and> step_rel st (mark_safes S st)"
proof -
  let ?st = "mark_safes S st"
  have fin: "finite S" using S by (rule undetermined_finite)
  have eq: "?st = st\<lparr>safes := safes st \<union> S, knowledge := map (shrink_safe S) (knowledge st),
        KB_has_changed := (S \<noteq> {} \<or> KB_has_changed st)\<rparr>"
    using fin undetermined_disjoint [OF S] by (rule mark_safes_eq)
  have u: "undetermined ?st = undetermined st - S"
    unfolding eq undetermined_def all_possible_moves_def by auto
  have same: "?st = st" if "S = {}"
    unfolding eq using that by (simp add: map_idI)
  have "sound Ms ?st"
  proof (rule soundI)
    fix s assume "s \<in> set (knowledge ?st)"
    then obtain s0 where s0: "s0 \<in> set (knowledge st)" and s: "s = shrink_safe S s0"
      unfolding eq by auto
    show "cells s \<subseteq> undetermined ?st"
      using sound_cells [OF snd s0] unfolding u s shrink_safe_def by auto
  next
    fix M assume "M \<in> Ms"
    then show "mines ?st \<subseteq> M" using sound_mines [OF snd] unfolding eq by simp
  next
    fix M assume "M \<in> Ms"
    then show "safes ?st \<inter> M = {}" using sound_safes [OF snd] M unfolding eq by auto
  next
    fix M s assume m: "M \<in> Ms" and "s \<in> set (knowledge ?st)"
    then obtain s0 where s0: "s0 \<in> set (knowledge st)" and s: "s = shrink_safe S s0"
      unfolding eq by auto
    have "(cells s0 - S) \<inter> M = cells s0 \<inter> M" using M [OF m] by auto
    then show "count s = int (card (cells s \<inter> M))"
      using sound_count [OF snd m s0] unfolding s shrink_safe_def by simp
  qed
  moreover have "step_rel st ?st"
  proof (cases "S = {}")
    case True
    then show ?thesis using same by (simp add: step_rel_refl)
  next
    case False
    then have "undetermined ?st \<subset> undetermined st" using S unfolding u by auto
    moreover have "undetermined ?st \<noteq> undetermined st" using False S unfolding u by auto
    moreover have "KB_has_changed ?st" unfolding eq using False by simp
    moreover have "safes ?st \<inter> mines ?st = safes st \<inter> mines st"
      unfolding eq using undetermined_disjoint [OF S] by auto
    ultimately show ?thesis unfolding step_rel_def
      by (simp add: mark_safes_frame mark_safes_safes fin mark_safes_knowledge)
  qed
  ultimately show ?thesis by simp
qed

lemma mark_mines_sound:
  assumes snd: "sound Ms st" and S: "S \<subseteq> undetermined st" and M: "\<And>M. M \<in> Ms \<Longrightarrow> S \<subseteq> M"
  shows "sound Ms (mark_mines S st) \<and> step_rel st (mark_mines S st)"
proof -
  let ?st = "mark_mines S st"
  have fin: "finite S" using S by (rule undetermined_finite)
  have eq: "?st = st\<lparr>mines := mines st \<union> S, knowledge := map (shrink_mine S) (knowledge st),
        KB_has_changed := (S \<noteq> {} \<or> KB_has_changed st)\<rparr>"
    using fin undetermined_disjoint [OF S] by (rule mark_mines_eq)
  have u: "undetermined ?st = undetermined st - S"
    unfolding eq undetermined_def all_possible_moves_def by auto
  have same: "?st = st" if "S = {}"
    unfolding eq using that by (simp add: map_idI)
  have "sound Ms ?st"
  proof (rule soundI)
    fix s assume "s \<in> set (knowledge ?st)"
    then obtain s0 where s0: "s0 \<in> set (knowledge st)" and s: "s = shrink_mine S s0"
      unfolding eq by auto
    show "cells s \<subseteq> undetermined ?st"
      using sound_cells [OF snd s0] unfolding u s shrink_mine_def by auto
  next
    fix M assume "M \<in> Ms"
    then show "mines ?st \<subseteq> M" using sound_mines [OF snd] M unfolding eq by simp
  next
    fix M assume "M \<in> Ms"
    then show "safes ?st \<inter> M = {}" using sound_safes [OF snd] unfolding eq by simp
  next
    fix M s assume m: "M \<in> Ms" and "s \<in> set (knowledge ?st)"
    then obtain s0 where s0: "s0 \<in> set (knowledge st)" and s: "s = shrink_mine S s0"
      unfolding eq by auto
    have f0: "finite (cells s0)"
      using sound_cells [OF snd s0] by (rule undetermined_finite)
    have e: "cells s0 \<inter> M = (cells s0 - S) \<inter> M \<union> cells s0 \<inter> S" using M [OF m] by auto
    have "card (cells s0 \<inter> M) = card ((cells s0 - S) \<inter> M) + card (cells s0 \<inter> S)"
      by (subst e, rule card_Un_disjoint) (use f0 in auto)
    then show "count s = int (card (cells s \<inter> M))"
      using sound_count [OF snd m s0] unfolding s shrink_mine_def by simp
  qed
  moreover have "step_rel st ?st"
  proof (cases "S = {}")
    case True
    then show ?thesis using same by (simp add: step_rel_refl)
  next
    case False
    then have "undetermined ?st \<subset> undetermined st" using S unfolding u by auto
    moreover have "undetermined ?st \<noteq> undetermined st" using False S unfolding u by auto
    moreover have "KB_has_changed ?st" unfolding eq using False by simp
    moreover have "safes ?st \<inter> mines ?st = safes st \<inter> mines st"
      unfolding eq using undetermined_disjoint [OF S] by auto
    ultimately show ?thesis unfolding step_rel_def
      by (simp add: mark_mines_frame mark_mines_mines fin mark_mines_knowledge)
  qed
  ultimately show ?thesis by simp
qed

lemma in_knowledge_iff: "in_knowledge s st \<longleftrightarrow> s \<in> set (knowledge st)"
  by (auto simp: in_knowledge_def sentence_eq_iff filter_empty_conv)

lemma add_if_new_Some:
  "add_if_new (Some s) st =
     (if s \<in> set (knowledge st) then st
      else st\<lparr>KB_has_changed := True, knowledge := knowledge st @ [s]\<rparr>)"
  by (auto simp: add_if_new_def in_knowledge_iff)

lemma add_if_new_None [simp]: "add_if_new None st = st"
  by (simp add: add_if_new_def)

lemma add_if_new_sound:
  assumes snd: "sound Ms st" and S: "cells s \<subseteq> undetermined st"
    and M: "\<And>M. M \<in> Ms \<Longrightarrow> count s = int (card (cells s \<inter> M))"
  shows "sound Ms (add_if_new (Some s) st) \<and> step_rel st (add_if_new (Some s) st)"
proof (cases "s \<in> set (knowledge st)")
  case True
  then show ?thesis using snd by (simp add: add_if_new_Some step_rel_refl)
next
  case False
  let ?st = "st\<lparr>KB_has_changed := True, knowledge := knowledge st @ [s]\<rparr>"
  have eq: "add_if_new (Some s) st = ?st" using False by (simp add: add_if_new_Some)
  have u: "undetermined ?st = undetermined st"
    unfolding undetermined_def all_possible_moves_def by simp
  have "sound Ms ?st"
  proof (rule soundI)
    fix x assume "x \<in> set (knowledge ?st)"
    then have "x \<in> set (knowledge st) \<or> x = s" by auto
    then show "cells x \<subseteq> undetermined ?st" unfolding u using sound_cells [OF snd] S by blast
  next
    fix M assume "M \<in> Ms"
    then show "mines ?st \<subseteq> M" using sound_mines [OF snd] by simp
  next
    fix M assume "M \<in> Ms"
    then show "safes ?st \<inter> M = {}" using sound_safes [OF snd] by simp
  next
    fix M x assume m: "M \<in> Ms" and "x \<in> set (knowledge ?st)"
    then have "x \<in> set (knowledge st) \<or> x = s" by auto
    then show "count x = int (card (cells x \<inter> M))"
      using sound_count [OF snd m] M [OF m] by blast
  qed
  moreover have "set (knowledge st) \<subset> set (knowledge ?st)" using False by auto
  then have "step_rel st ?st" unfolding step_rel_def u by simp
  ultimately show ?thesis unfolding eq by simp
qed

lemma remaining_count_sound:
  assumes snd: "sound Ms st" and cs: "finite cs" and m: "M \<in> Ms"
    and n: "n = int (card (cs \<inter> M))"
  shows "remaining_count cs n st = int (card (remaining_cells cs st \<inter> M))"
proof -
  have mi: "mines st \<subseteq> M" and sa: "safes st \<inter> M = {}"
    using sound_mines [OF snd m] sound_safes [OF snd m] by simp_all
  have e: "cs \<inter> M = remaining_cells cs st \<inter> M \<union> cs \<inter> (mines st - safes st)"
    using mi sa unfolding remaining_cells_def by auto
  have "card (cs \<inter> M) = card (remaining_cells cs st \<inter> M) + card (cs \<inter> (mines st - safes st))"
    by (subst e, rule card_Un_disjoint) (use cs in \<open>auto simp: remaining_cells_def\<close>)
  then show ?thesis unfolding remaining_count_def n by simp
qed

lemma clean_up_sound:
  assumes snd: "sound Ms st" and cs: "cs \<subseteq> all_possible_moves st"
    and n: "\<And>M. M \<in> Ms \<Longrightarrow> n = int (card (cs \<inter> M))"
  shows "sound Ms (snd (clean_up cs n st)) \<and> step_rel st (snd (clean_up cs n st)) \<and>
     (\<forall>s. fst (clean_up cs n st) = Some s \<longrightarrow>
        cells s \<subseteq> undetermined (snd (clean_up cs n st)) \<and>
        (\<forall>M \<in> Ms. count s = int (card (cells s \<inter> M))))"
proof -
  let ?T = "remaining_cells cs st" and ?k = "remaining_count cs n st"
  have fin: "finite cs" using cs finite_all_possible_moves by (rule finite_subset)
  have T: "?T \<subseteq> undetermined st" using cs unfolding remaining_cells_def undetermined_def by auto
  have finT: "finite ?T" using T by (rule undetermined_finite)
  have k: "?k = int (card (?T \<inter> M))" if "M \<in> Ms" for M
    using snd fin that n [OF that] by (rule remaining_count_sound)
  note cl = clean_up_closed [OF fin, of n st]
  consider (empty) "?T = {}" | (safe) "?T \<noteq> {}" "?k = 0"
    | (mine) "?T \<noteq> {}" "?k \<noteq> 0" "int (card ?T) = ?k"
    | (keep) "?T \<noteq> {}" "?k \<noteq> 0" "int (card ?T) \<noteq> ?k"
    by blast
  then show ?thesis
  proof cases
    case empty
    then show ?thesis using snd unfolding cl by (simp add: step_rel_refl)
  next
    case safe
    have "?T \<inter> M = {}" if "M \<in> Ms" for M
      using k [OF that] safe(2) finT by simp
    then have "sound Ms (mark_safes ?T st) \<and> step_rel st (mark_safes ?T st)"
      using snd T by (intro mark_safes_sound)
    then show ?thesis using safe unfolding cl by simp
  next
    case mine
    have "?T \<subseteq> M" if "M \<in> Ms" for M
    proof -
      have "card (?T \<inter> M) = card ?T" using k [OF that] mine(3) by simp
      then have "?T \<inter> M = ?T" using finT by (intro card_subset_eq) auto
      then show ?thesis by blast
    qed
    then have "sound Ms (mark_mines ?T st) \<and> step_rel st (mark_mines ?T st)"
      using snd T by (intro mark_mines_sound)
    then show ?thesis using mine unfolding cl by simp
  next
    case keep
    then show ?thesis using snd T k unfolding cl by (simp add: step_rel_refl)
  qed
qed

lemma clean_up_add_sound:
  assumes snd: "sound Ms st" and cs: "cs \<subseteq> all_possible_moves st"
    and n: "\<And>M. M \<in> Ms \<Longrightarrow> n = int (card (cs \<inter> M))"
  shows "sound Ms (add_if_new (fst (clean_up cs n st)) (snd (clean_up cs n st))) \<and>
         step_rel st (add_if_new (fst (clean_up cs n st)) (snd (clean_up cs n st)))"
proof -
  let ?so = "fst (clean_up cs n st)" and ?st = "snd (clean_up cs n st)"
  note c = clean_up_sound [OF assms]
  show ?thesis
  proof (cases ?so)
    case None
    then show ?thesis using c by simp
  next
    case (Some s)
    with c have "cells s \<subseteq> undetermined ?st" "\<And>M. M \<in> Ms \<Longrightarrow> count s = int (card (cells s \<inter> M))"
      by auto
    with c have "sound Ms (add_if_new (Some s) ?st) \<and> step_rel ?st (add_if_new (Some s) ?st)"
      by (intro add_if_new_sound) auto
    then show ?thesis using c Some by (auto intro: step_rel_trans [of st ?st])
  qed
qed

lemma add_new_sentence_alt:
  "add_new_sentence c n st =
     add_if_new (fst (clean_up (neighbors st c) n st)) (snd (clean_up (neighbors st c) n st))"
  by (simp add: add_new_sentence_def split: prod.splits option.splits)

lemma add_new_sentence_sound:
  assumes "sound Ms st" and "\<And>M. M \<in> Ms \<Longrightarrow> n = int (card (neighbors st c \<inter> M))"
  shows "sound Ms (add_new_sentence c n st) \<and> step_rel st (add_new_sentence c n st)"
  unfolding add_new_sentence_alt using assms(1) neighbors_subset assms(2)
  by (rule clean_up_add_sound)

lemma mark_additional_step_sound:
  assumes snd: "sound Ms st" and i: "i < length (knowledge st)"
  shows "sound Ms (mark_additional_step i st) \<and> step_rel st (mark_additional_step i st)"
proof -
  let ?s = "knowledge st ! i"
  have s: "?s \<in> set (knowledge st)" using i by simp
  have c: "cells ?s \<subseteq> undetermined st" using snd s by (rule sound_cells)
  have fin: "finite (cells ?s)" using c by (rule undetermined_finite)
  let ?st = "st\<lparr>KB_has_changed := True\<rparr>"
  have snd': "sound Ms ?st" using snd unfolding sound_def undetermined_def all_possible_moves_def by simp
  have c': "cells ?s \<subseteq> undetermined ?st" using c unfolding undetermined_def all_possible_moves_def by simp
  have rel: "step_rel st st'" if "step_rel ?st st'" "cells ?s \<noteq> {}" "cells ?s \<subseteq> safes st' \<union> mines st'" for st'
  proof -
    have f: "height st' = height st" "width st' = width st"
      using step_rel_frame(1,2) [OF that(1)] by simp_all
    have "undetermined st' \<subseteq> undetermined st"
      using step_rel_undetermined [OF that(1)] unfolding undetermined_def all_possible_moves_def by simp
    moreover have "undetermined st' \<noteq> undetermined st"
      using that(2,3) c unfolding undetermined_def all_possible_moves_def f by auto
    ultimately have "undetermined st' \<subset> undetermined st" by blast
    moreover have "st' \<noteq> st" using \<open>undetermined st' \<noteq> undetermined st\<close> by auto
    moreover have "st' = ?st \<or> KB_has_changed st'" using that(1) by (rule step_rel_chg)
    then have "KB_has_changed st'" by auto
    ultimately show ?thesis
      using step_rel_frame [OF that(1)] unfolding step_rel_def by auto
  qed
  consider (mine) "int (card (cells ?s)) = count ?s" "cells ?s \<noteq> {}"
    | (safe) "\<not> (int (card (cells ?s)) = count ?s \<and> cells ?s \<noteq> {})" "count ?s = 0" "cells ?s \<noteq> {}"
    | (none) "\<not> (int (card (cells ?s)) = count ?s \<and> cells ?s \<noteq> {})" "\<not> (count ?s = 0 \<and> cells ?s \<noteq> {})"
    by blast
  then show ?thesis
  proof cases
    case mine
    have "cells ?s \<subseteq> M" if "M \<in> Ms" for M
    proof -
      have "card (cells ?s \<inter> M) = card (cells ?s)"
        using sound_count [OF snd that s] mine(1) by simp
      then have "cells ?s \<inter> M = cells ?s" using fin by (intro card_subset_eq) auto
      then show ?thesis by blast
    qed
    then have r: "sound Ms (mark_mines (cells ?s) ?st) \<and> step_rel ?st (mark_mines (cells ?s) ?st)"
      using snd' c' by (intro mark_mines_sound)
    have "cells ?s \<subseteq> mines (mark_mines (cells ?s) ?st)" using fin by (simp add: mark_mines_mines)
    then have "step_rel st (mark_mines (cells ?s) ?st)" using r mine(2) by (intro rel) auto
    moreover have "mark_additional_step i st = mark_mines (cells ?s) ?st"
      using mine by (simp add: mark_additional_step_def known_mines_def Let_def)
    ultimately show ?thesis using r by simp
  next
    case safe
    have "cells ?s \<inter> M = {}" if "M \<in> Ms" for M
      using sound_count [OF snd that s] safe(2) fin by simp
    then have r: "sound Ms (mark_safes (cells ?s) ?st) \<and> step_rel ?st (mark_safes (cells ?s) ?st)"
      using snd' c' by (intro mark_safes_sound)
    have "cells ?s \<inter> mines ?st = {}" using c unfolding undetermined_def by auto
    then have "cells ?s \<subseteq> safes (mark_safes (cells ?s) ?st)"
      using fin by (auto simp add: mark_safes_safes)
    then have "step_rel st (mark_safes (cells ?s) ?st)" using r safe(3) by (intro rel) auto
    moreover have "mark_additional_step i st = mark_safes (cells ?s) ?st"
      using safe by (auto simp add: mark_additional_step_def known_mines_def known_safes_def Let_def)
    ultimately show ?thesis using r by simp
  next
    case none
    then have "mark_additional_step i st = st"
      by (auto simp add: mark_additional_step_def known_mines_def known_safes_def Let_def)
    then show ?thesis using snd by (simp add: step_rel_refl)
  qed
qed

lemma mark_additional_cells_sound:
  assumes "sound Ms st"
  shows "sound Ms (mark_additional_cells st) \<and> step_rel st (mark_additional_cells st)"
proof -
  let ?P = "\<lambda>x. sound Ms x \<and> length (knowledge st) \<le> length (knowledge x)"
  have "?P (fold mark_additional_step [0 ..< length (knowledge st)] st) \<and>
        step_rel st (fold mark_additional_step [0 ..< length (knowledge st)] st)"
  proof (rule fold_step_rel)
    show "?P st" using assms by simp
  next
    fix i x assume i: "i \<in> set [0 ..< length (knowledge st)]" and x: "?P x"
    then have "i < length (knowledge x)" by simp
    with x have r: "sound Ms (mark_additional_step i x) \<and> step_rel x (mark_additional_step i x)"
      by (intro mark_additional_step_sound) simp_all
    then have "length (knowledge x) \<le> length (knowledge (mark_additional_step i x))"
      using step_rel_frame(6) by blast
    with r x show "?P (mark_additional_step i x) \<and> step_rel x (mark_additional_step i x)"
      by simp
  qed
  then show ?thesis by (simp add: mark_additional_cells_def)
qed

lemma set_combinations2:
  "sorted xs \<Longrightarrow> distinct xs \<Longrightarrow>
   set (combinations2 xs) = {(x, y). x \<in> set xs \<and> y \<in> set xs \<and> x < y}"
proof (induction xs)
  case Nil
  show ?case by simp
next
  case (Cons a xs)
  then have IH: "set (combinations2 xs) = {(x, y). x \<in> set xs \<and> y \<in> set xs \<and> x < y}"
    and lt: "\<And>y. y \<in> set xs \<Longrightarrow> a < y"
    by (auto simp: less_le)
  show ?case unfolding combinations2.simps set_append IH using lt
    by (auto dest: lt less_asym)
qed

lemma unique_pairs_iff:
  "(i, j) \<in> set (unique_pairs st) \<longleftrightarrow>
     i < j \<and> j < length (knowledge st) \<and>
     knowledge st ! i \<noteq> empty_sentence \<and> knowledge st ! j \<noteq> empty_sentence \<and>
     knowledge st ! i \<noteq> knowledge st ! j"
proof -
  define xs where "xs = filter (\<lambda>i. is_not_empty (knowledge st ! i)) [0 ..< length (knowledge st)]"
  have "sorted xs" "distinct xs" by (simp_all add: xs_def sorted_wrt_filter)
  then have c: "set (combinations2 xs) = {(x, y). x \<in> set xs \<and> y \<in> set xs \<and> x < y}"
    by (rule set_combinations2)
  have 1: "(i, j) \<in> set (unique_pairs st) \<longleftrightarrow>
      (i, j) \<in> set (combinations2 xs) \<and> knowledge st ! i \<noteq> knowledge st ! j"
    by (simp add: unique_pairs_def xs_def are_identicals_def sentence_eq_iff)
  have 2: "x \<in> set xs \<longleftrightarrow> x < length (knowledge st) \<and> knowledge st ! x \<noteq> empty_sentence" for x
    by (simp add: xs_def is_not_empty_def sentence_eq_iff)
  have 3: "(i, j) \<in> set (combinations2 xs) \<longleftrightarrow> i \<in> set xs \<and> j \<in> set xs \<and> i < j"
    unfolding c by simp
  show ?thesis unfolding 1 3 2 by auto
qed

lemma unique_pairs_bounds:
  "p \<in> set (unique_pairs st) \<Longrightarrow> fst p < snd p \<and> snd p < length (knowledge st)"
  using unique_pairs_iff [of "fst p" "snd p" st] by simp

lemma infer_pair_alt:
  "infer_pair p st =
     (if cells (knowledge st ! fst p) \<subset> cells (knowledge st ! snd p)
      then add_if_new
             (fst (clean_up (cells (knowledge st ! snd p) - cells (knowledge st ! fst p))
                    (count (knowledge st ! snd p) - count (knowledge st ! fst p)) st))
             (snd (clean_up (cells (knowledge st ! snd p) - cells (knowledge st ! fst p))
                    (count (knowledge st ! snd p) - count (knowledge st ! fst p)) st))
      else if cells (knowledge st ! snd p) \<subset> cells (knowledge st ! fst p)
      then add_if_new
             (fst (clean_up (cells (knowledge st ! fst p) - cells (knowledge st ! snd p))
                    (count (knowledge st ! fst p) - count (knowledge st ! snd p)) st))
             (snd (clean_up (cells (knowledge st ! fst p) - cells (knowledge st ! snd p))
                    (count (knowledge st ! fst p) - count (knowledge st ! snd p)) st))
      else st)"
  by (simp add: infer_pair_def Let_def case_prod_beta)

lemma difference_sound:
  assumes snd: "sound Ms st" and a: "a \<in> set (knowledge st)" and b: "b \<in> set (knowledge st)"
    and sub: "cells a \<subset> cells b"
  shows "sound Ms (add_if_new (fst (clean_up (cells b - cells a) (count b - count a) st))
                (snd (clean_up (cells b - cells a) (count b - count a) st))) \<and>
         step_rel st (add_if_new (fst (clean_up (cells b - cells a) (count b - count a) st))
                (snd (clean_up (cells b - cells a) (count b - count a) st)))"
proof (rule clean_up_add_sound [OF snd])
  show "cells b - cells a \<subseteq> all_possible_moves st"
    using sound_cells [OF snd b] unfolding undetermined_def by auto
next
  fix M assume m: "M \<in> Ms"
  have fb: "finite (cells b)" using sound_cells [OF snd b] by (rule undetermined_finite)
  have e: "cells b \<inter> M = (cells b - cells a) \<inter> M \<union> cells a \<inter> M" using sub by auto
  have "card (cells b \<inter> M) = card ((cells b - cells a) \<inter> M) + card (cells a \<inter> M)"
    by (subst e, rule card_Un_disjoint) (use fb sub in \<open>auto intro: finite_subset\<close>)
  then show "count b - count a = int (card ((cells b - cells a) \<inter> M))"
    using sound_count [OF snd m a] sound_count [OF snd m b] by simp
qed

lemma infer_pair_sound:
  assumes snd: "sound Ms st" and i: "fst p < length (knowledge st)" and j: "snd p < length (knowledge st)"
  shows "sound Ms (infer_pair p st) \<and> step_rel st (infer_pair p st)"
proof -
  let ?a = "knowledge st ! fst p" and ?b = "knowledge st ! snd p"
  have a: "?a \<in> set (knowledge st)" and b: "?b \<in> set (knowledge st)" using i j by simp_all
  show ?thesis
  proof (cases "cells ?a \<subset> cells ?b")
    case True
    then show ?thesis using difference_sound [OF snd a b True] by (simp add: infer_pair_alt)
  next
    case False
    show ?thesis
    proof (cases "cells ?b \<subset> cells ?a")
      case True
      then show ?thesis using False difference_sound [OF snd b a True] by (simp add: infer_pair_alt)
    next
      case nb: False
      then show ?thesis using False snd by (simp add: infer_pair_alt step_rel_refl)
    qed
  qed
qed

lemma add_inferred_sentence_alt:
  "add_inferred_sentence st = fold infer_pair (unique_pairs st) st"
  by (simp add: add_inferred_sentence_def Let_def)

lemma add_inferred_sentence_sound:
  assumes "sound Ms st"
  shows "sound Ms (add_inferred_sentence st) \<and> step_rel st (add_inferred_sentence st)"
proof -
  let ?P = "\<lambda>x. sound Ms x \<and> length (knowledge st) \<le> length (knowledge x)"
  have "?P (fold infer_pair (unique_pairs st) st) \<and>
        step_rel st (fold infer_pair (unique_pairs st) st)"
  proof (rule fold_step_rel)
    show "?P st" using assms by simp
  next
    fix p x assume p: "p \<in> set (unique_pairs st)" and x: "?P x"
    then have "fst p < length (knowledge x)" "snd p < length (knowledge x)"
      using unique_pairs_bounds [OF p] by simp_all
    with x have r: "sound Ms (infer_pair p x) \<and> step_rel x (infer_pair p x)"
      by (intro infer_pair_sound) simp_all
    then have "length (knowledge x) \<le> length (knowledge (infer_pair p x))"
      using step_rel_frame(6) by blast
    with r x show "?P (infer_pair p x) \<and> step_rel x (infer_pair p x)"
      by simp
  qed
  then show ?thesis by (simp add: add_inferred_sentence_alt)
qed

subsection \<open>The fixed-point loop keeps the invariant\<close>

lemma sound_flag: "sound Ms (st\<lparr>KB_has_changed := b\<rparr>) = sound Ms st"
  unfolding sound_def undetermined_def all_possible_moves_def by simp

lemma pass_sound:
  assumes "sound Ms st"
  shows "sound Ms (add_inferred_sentence (mark_additional_cells st)) \<and>
         step_rel st (add_inferred_sentence (mark_additional_cells st))"
proof -
  note 1 = mark_additional_cells_sound [OF assms]
  note 2 = add_inferred_sentence_sound [of Ms "mark_additional_cells st"]
  from 1 2 show ?thesis by (blast intro: step_rel_trans [of st "mark_additional_cells st"])
qed

lemma loop_body_sound:
  assumes "sound Ms st"
  shows "sound Ms (loop_body st) \<and> step_rel (st\<lparr>KB_has_changed := False\<rparr>) (loop_body st)"
  unfolding loop_body_def using assms by (intro pass_sound) (simp add: sound_flag)

lemma fixpoint_loop_unfold:
  "fixpoint_loop st = (if KB_has_changed st then fixpoint_loop (loop_body st) else Some st)"
  unfolding loop_body_def by (rule fixpoint_loop.simps)

lemma fixpoint_loop_sound:
  assumes ret: "fixpoint_loop st = Some st'"
  shows "sound Ms st \<longrightarrow> sound Ms st'"
proof (rule fixpoint_loop.raw_induct [where P = "\<lambda>st st'. sound Ms st \<longrightarrow> sound Ms st'", OF _ ret])
  fix f st st'
  assume IH: "\<And>st st'. f st = Some st' \<Longrightarrow> sound Ms st \<longrightarrow> sound Ms st'"
    and eq: "(if KB_has_changed st
       then f (add_inferred_sentence (mark_additional_cells (st\<lparr>KB_has_changed := False\<rparr>)))
       else Some st) = Some st'"
  show "sound Ms st \<longrightarrow> sound Ms st'"
  proof (cases "KB_has_changed st")
    case True
    with eq have "f (loop_body st) = Some st'" by (simp add: loop_body_def)
    then have "sound Ms (loop_body st) \<longrightarrow> sound Ms st'" by (rule IH)
    then show ?thesis using loop_body_sound by blast
  next
    case False
    with eq show ?thesis by simp
  qed
qed

subsection \<open>The fixed-point loop terminates\<close>

lemma finite_sentence_space: "finite (sentence_space M st)"
  unfolding sentence_space_def by (simp add: finite_all_possible_moves)

lemma sound_sentence_space:
  assumes "sound {M} st"
  shows "set (knowledge st) \<subseteq> sentence_space M st"
proof
  fix s assume s: "s \<in> set (knowledge st)"
  have "cells s \<subseteq> all_possible_moves st"
    using sound_cells [OF assms s] unfolding undetermined_def by auto
  moreover have "count s = int (card (cells s \<inter> M))"
    using sound_count [OF assms _ s] by simp
  then have "s = \<lparr>cells = cells s, count = int (card (cells s \<inter> M))\<rparr>" by simp
  ultimately show "s \<in> sentence_space M st" unfolding sentence_space_def by blast
qed

lemma wf_loop_order: "wf (loop_order M)"
  unfolding loop_order_def by (intro wf_inv_image wf_lex_prod wf_finite_psubset)

lemma loop_body_decreases:
  assumes snd: "sound {M} st" and f: "KB_has_changed (loop_body st)"
  shows "(loop_body st, st) \<in> loop_order M"
proof -
  let ?st0 = "st\<lparr>KB_has_changed := False\<rparr>" and ?b = "loop_body st"
  have r: "step_rel ?st0 ?b" and sb: "sound {M} ?b" using loop_body_sound [OF snd] by simp_all
  have u0: "undetermined ?st0 = undetermined st"
    unfolding undetermined_def all_possible_moves_def by simp
  have sp: "sentence_space M ?b = sentence_space M st"
    using step_rel_frame(1,2) [OF r] unfolding sentence_space_def all_possible_moves_def by simp
  have sub: "undetermined ?b \<subseteq> undetermined st" using step_rel_undetermined [OF r] u0 by simp
  have "KB_has_changed ?st0 \<or> undetermined ?b \<subset> undetermined ?st0 \<or>
      set (knowledge ?st0) \<subset> set (knowledge ?b)"
    using r f by (rule step_rel_prog)
  then have p: "undetermined ?b \<subset> undetermined st \<or> set (knowledge st) \<subset> set (knowledge ?b)"
    using u0 by simp
  show ?thesis
  proof (cases "undetermined ?b \<subset> undetermined st")
    case True
    then show ?thesis unfolding loop_order_def by (simp add: finite_undetermined)
  next
    case False
    with sub p have e: "undetermined ?b = undetermined st"
      and k: "set (knowledge st) \<subset> set (knowledge ?b)" by auto
    have "set (knowledge ?b) \<subseteq> sentence_space M st"
      using sound_sentence_space [OF sb] sp by simp
    with k have "sentence_space M st - set (knowledge ?b) \<subset> sentence_space M st - set (knowledge st)"
      by blast
    then show ?thesis unfolding loop_order_def using e sp
      by (simp add: finite_sentence_space)
  qed
qed

lemma fixpoint_loop_terminates:
  "sound {M} st \<Longrightarrow> \<exists>st'. fixpoint_loop st = Some st'"
proof (induction st rule: wf_induct_rule [OF wf_loop_order [of M]])
  case (1 st)
  show ?case
  proof (cases "KB_has_changed st")
    case False
    then show ?thesis by (simp add: fixpoint_loop_unfold)
  next
    case True
    have sb: "sound {M} (loop_body st)" using loop_body_sound [OF "1.prems"] by simp
    show ?thesis
    proof (cases "KB_has_changed (loop_body st)")
      case f: False
      then have "fixpoint_loop (loop_body st) = Some (loop_body st)"
        by (simp add: fixpoint_loop_unfold [of "loop_body st"])
      with True show ?thesis by (simp add: fixpoint_loop_unfold [of st])
    next
      case t: True
      have "(loop_body st, st) \<in> loop_order M" using "1.prems" t by (rule loop_body_decreases)
      then have "\<exists>st'. fixpoint_loop (loop_body st) = Some st'" using sb by (rule "1.IH")
      with True show ?thesis by (simp add: fixpoint_loop_unfold [of st])
    qed
  qed
qed

subsection \<open>The public operations keep the invariant and return\<close>

lemma agrees_cong:
  "height st' = height st \<Longrightarrow> width st' = width st \<Longrightarrow> agrees M st' op = agrees M st op"
  by (cases op) (simp_all add: neighbors_cong [of st' st])

lemma mark_safe_alt:
  "mark_safe c st =
     (if c \<notin> mines st
      then st\<lparr>safes := insert c (safes st), KB_has_changed := True,
              knowledge := map (shrink_safe {c}) (knowledge st)\<rparr>
      else st\<lparr>KB_has_changed := False\<rparr>)"
  by (simp add: mark_safe_def sentence_mark_safe_alt shrink_safe_def)

lemma mark_mine_alt:
  "mark_mine c st =
     (if c \<notin> mines st
      then st\<lparr>mines := insert c (mines st), KB_has_changed := True,
              knowledge := map (shrink_mine {c}) (knowledge st)\<rparr>
      else st\<lparr>KB_has_changed := False\<rparr>)"
proof -
  have "sentence_mark_mine c = shrink_mine {c}"
    by (rule ext) (auto simp: sentence_mark_mine_alt shrink_mine_def)
  then show ?thesis by (simp add: mark_mine_def)
qed

lemma mark_safe_sound:
  assumes snd: "sound Ms st" and M: "\<And>M. M \<in> Ms \<Longrightarrow> c \<notin> M"
  shows "sound Ms (mark_safe c st)"
proof (cases "c \<in> mines st")
  case True
  then show ?thesis using snd by (simp add: mark_safe_alt sound_flag)
next
  case False
  let ?st = "st\<lparr>safes := insert c (safes st), KB_has_changed := True,
              knowledge := map (shrink_safe {c}) (knowledge st)\<rparr>"
  have u: "undetermined ?st = undetermined st - {c}"
    unfolding undetermined_def all_possible_moves_def by auto
  have "sound Ms ?st"
  proof (rule soundI)
    fix s assume "s \<in> set (knowledge ?st)"
    then obtain s0 where s0: "s0 \<in> set (knowledge st)" and s: "s = shrink_safe {c} s0"
      by auto
    show "cells s \<subseteq> undetermined ?st"
      using sound_cells [OF snd s0] unfolding u s shrink_safe_def by auto
  next
    fix M assume "M \<in> Ms"
    then show "mines ?st \<subseteq> M" using sound_mines [OF snd] by simp
  next
    fix M assume "M \<in> Ms"
    then show "safes ?st \<inter> M = {}" using sound_safes [OF snd] M by auto
  next
    fix M s assume m: "M \<in> Ms" and "s \<in> set (knowledge ?st)"
    then obtain s0 where s0: "s0 \<in> set (knowledge st)" and s: "s = shrink_safe {c} s0"
      by auto
    have "(cells s0 - {c}) \<inter> M = cells s0 \<inter> M" using M [OF m] by auto
    then show "count s = int (card (cells s \<inter> M))"
      using sound_count [OF snd m s0] unfolding s shrink_safe_def by simp
  qed
  then show ?thesis using False by (simp add: mark_safe_alt)
qed

lemma mark_mine_sound:
  assumes snd: "sound Ms st" and M: "\<And>M. M \<in> Ms \<Longrightarrow> c \<in> M"
  shows "sound Ms (mark_mine c st)"
proof (cases "c \<in> mines st")
  case True
  then show ?thesis using snd by (simp add: mark_mine_alt sound_flag)
next
  case False
  let ?st = "st\<lparr>mines := insert c (mines st), KB_has_changed := True,
              knowledge := map (shrink_mine {c}) (knowledge st)\<rparr>"
  have u: "undetermined ?st = undetermined st - {c}"
    unfolding undetermined_def all_possible_moves_def by auto
  have "sound Ms ?st"
  proof (rule soundI)
    fix s assume "s \<in> set (knowledge ?st)"
    then obtain s0 where s0: "s0 \<in> set (knowledge st)" and s: "s = shrink_mine {c} s0"
      by auto
    show "cells s \<subseteq> undetermined ?st"
      using sound_cells [OF snd s0] unfolding u s shrink_mine_def by auto
  next
    fix M assume "M \<in> Ms"
    then show "mines ?st \<subseteq> M" using sound_mines [OF snd] M by simp
  next
    fix M assume "M \<in> Ms"
    then show "safes ?st \<inter> M = {}" using sound_safes [OF snd] by simp
  next
    fix M s assume m: "M \<in> Ms" and "s \<in> set (knowledge ?st)"
    then obtain s0 where s0: "s0 \<in> set (knowledge st)" and s: "s = shrink_mine {c} s0"
      by auto
    have f0: "finite (cells s0)"
      using sound_cells [OF snd s0] by (rule undetermined_finite)
    have e: "cells s0 \<inter> M = (cells s0 - {c}) \<inter> M \<union> cells s0 \<inter> {c}" using M [OF m] by auto
    have "card (cells s0 \<inter> M) = card ((cells s0 - {c}) \<inter> M) + card (cells s0 \<inter> {c})"
      by (subst e, rule card_Un_disjoint) (use f0 in auto)
    then show "count s = int (card (cells s \<inter> M))"
      using sound_count [OF snd m s0] unfolding s shrink_mine_def by simp
  qed
  then show ?thesis using False by (simp add: mark_mine_alt)
qed

lemma sound_moves_made: "sound Ms (st\<lparr>moves_made := X\<rparr>) = sound Ms st"
  unfolding sound_def undetermined_def all_possible_moves_def by simp

lemma add_knowledge_alt: "add_knowledge c n st = fixpoint_loop (entry_state c n st)"
  by (simp add: add_knowledge_def entry_state_def)

lemma mark_safe_dims:
  "height (mark_safe c st) = height st" "width (mark_safe c st) = width st"
  by (simp_all add: mark_safe_def)

lemma mark_mine_dims:
  "height (mark_mine c st) = height st" "width (mark_mine c st) = width st"
  by (simp_all add: mark_mine_def)

lemma entry_state_sound:
  assumes snd: "sound Ms st" and M: "\<And>M. M \<in> Ms \<Longrightarrow> c \<notin> M \<and> n = int (card (neighbors st c \<inter> M))"
  shows "sound Ms (entry_state c n st)"
    and "height (entry_state c n st) = height st" and "width (entry_state c n st) = width st"
proof -
  let ?s1 = "mark_safe c (st\<lparr>moves_made := insert c (moves_made st)\<rparr>)"
  let ?s2 = "add_new_sentence c n ?s1"
  have 1: "sound Ms ?s1" using snd M by (intro mark_safe_sound) (simp_all add: sound_moves_made)
  have d1: "height ?s1 = height st" "width ?s1 = width st" by (simp_all add: mark_safe_dims)
  have nb: "neighbors ?s1 c = neighbors st c" using d1 by (rule neighbors_cong)
  have 2: "sound Ms ?s2 \<and> step_rel ?s1 ?s2"
    using 1 M by (intro add_new_sentence_sound) (simp_all add: nb)
  have 3: "sound Ms (add_inferred_sentence (mark_additional_cells ?s2)) \<and>
         step_rel ?s2 (add_inferred_sentence (mark_additional_cells ?s2))"
    using 2 by (intro pass_sound) simp
  show "sound Ms (entry_state c n st)" using 3 by (simp add: entry_state_def)
  have r: "step_rel ?s1 (entry_state c n st)"
    using 2 3 unfolding entry_state_def by (blast intro: step_rel_trans [of ?s1 ?s2])
  show "height (entry_state c n st) = height st" "width (entry_state c n st) = width st"
    using step_rel_frame(1,2) [OF r] d1 by simp_all
qed

lemma fixpoint_loop_dims:
  assumes ret: "fixpoint_loop st = Some st'"
  shows "sound {} st \<longrightarrow> height st' = height st \<and> width st' = width st"
proof (rule fixpoint_loop.raw_induct
    [where P = "\<lambda>st st'. sound {} st \<longrightarrow> height st' = height st \<and> width st' = width st", OF _ ret])
  fix f st st'
  assume IH: "\<And>st st'. f st = Some st' \<Longrightarrow> sound {} st \<longrightarrow> height st' = height st \<and> width st' = width st"
    and eq: "(if KB_has_changed st
       then f (add_inferred_sentence (mark_additional_cells (st\<lparr>KB_has_changed := False\<rparr>)))
       else Some st) = Some st'"
  show "sound {} st \<longrightarrow> height st' = height st \<and> width st' = width st"
  proof (cases "KB_has_changed st")
    case True
    with eq have "f (loop_body st) = Some st'" by (simp add: loop_body_def)
    then have 1: "sound {} (loop_body st) \<longrightarrow> height st' = height (loop_body st) \<and> width st' = width (loop_body st)"
      by (rule IH)
    show ?thesis
    proof
      assume s: "sound {} st"
      note b = loop_body_sound [OF s]
      have "height (loop_body st) = height st" "width (loop_body st) = width st"
        using step_rel_frame(1,2) [of "st\<lparr>KB_has_changed := False\<rparr>" "loop_body st"] b by simp_all
      with 1 b show "height st' = height st \<and> width st' = width st" by simp
    qed
  next
    case False
    with eq show ?thesis by simp
  qed
qed

lemma sound_weaken: "sound Ms st \<Longrightarrow> sound {} st"
  unfolding sound_def by simp

lemma exec_sound:
  assumes snd: "sound Ms st" and ag: "\<And>M. M \<in> Ms \<Longrightarrow> agrees M st op"
    and ex: "exec op st = Some st'"
  shows "sound Ms st' \<and> height st' = height st \<and> width st' = width st"
proof (cases op)
  case (Observe c n)
  have M: "\<And>M. M \<in> Ms \<Longrightarrow> c \<notin> M \<and> n = int (card (neighbors st c \<inter> M))"
    using ag Observe by simp
  note e = entry_state_sound [OF snd M]
  from ex Observe have l: "fixpoint_loop (entry_state c n st) = Some st'"
    by (simp add: add_knowledge_alt)
  have "sound Ms st'" using fixpoint_loop_sound [OF l] e(1) by blast
  moreover have "height st' = height st \<and> width st' = width st"
    using fixpoint_loop_dims [OF l] sound_weaken [OF e(1)] e(2,3) by simp
  ultimately show ?thesis by simp
next
  case (Mark_Mine c)
  then show ?thesis using ex ag mark_mine_sound [OF snd, of c] by (auto simp: mark_mine_dims)
next
  case (Mark_Safe c)
  then show ?thesis using ex ag mark_safe_sound [OF snd, of c] by (auto simp: mark_safe_dims)
next
  case Safe_Move
  then show ?thesis using ex snd by (auto simp: make_safe_move_def Let_def)
next
  case Random_Move
  then show ?thesis using ex snd by (auto simp: make_random_move_def Let_def)
qed

lemma exec_terminates:
  assumes snd: "sound {M} st" and ag: "agrees M st op"
  shows "\<exists>st'. exec op st = Some st'"
proof (cases op)
  case (Observe c n)
  have "sound {M} (entry_state c n st)"
    using snd ag Observe by (intro entry_state_sound) simp_all
  then show ?thesis unfolding Observe exec.simps add_knowledge_alt
    by (rule fixpoint_loop_terminates)
qed simp_all

lemma sound_init: "sound Ms (init h w)"
  unfolding sound_def init_def by simp

lemma run_sound:
  assumes "sound Ms st" and "\<And>M op. M \<in> Ms \<Longrightarrow> op \<in> set ops \<Longrightarrow> agrees M st op"
    and "run ops st = Some st'"
  shows "sound Ms st' \<and> height st' = height st \<and> width st' = width st"
  using assms
proof (induction ops arbitrary: st)
  case Nil
  then show ?case by simp
next
  case (Cons op ops)
  from Cons.prems(3) obtain st1 where e: "exec op st = Some st1" and r: "run ops st1 = Some st'"
    by (auto split: option.splits)
  have 1: "sound Ms st1 \<and> height st1 = height st \<and> width st1 = width st"
    using Cons.prems(1) _ e by (rule exec_sound) (simp add: Cons.prems(2))
  have "sound Ms st' \<and> height st' = height st1 \<and> width st' = width st1"
  proof (rule Cons.IH [OF _ _ r])
    show "sound Ms st1" using 1 by simp
    fix M op' assume "M \<in> Ms" "op' \<in> set ops"
    then have "agrees M st op'" using Cons.prems(2) by simp
    then show "agrees M st1 op'" using 1 agrees_cong [of st1 st] by simp
  qed
  with 1 show ?case by simp
qed

lemma run_terminates:
  assumes "sound {M} st" and "\<And>op. op \<in> set ops \<Longrightarrow> agrees M st op"
  shows "\<exists>st'. run ops st = Some st'"
  using assms
proof (induction ops arbitrary: st)
  case Nil
  then show ?case by simp
next
  case (Cons op ops)
  obtain st1 where e: "exec op st = Some st1"
    using exec_terminates [OF Cons.prems(1), of op] Cons.prems(2) by auto
  have 1: "sound {M} st1 \<and> height st1 = height st \<and> width st1 = width st"
    using Cons.prems(1) _ e by (rule exec_sound) (simp add: Cons.prems(2))
  have "\<exists>st'. run ops st1 = Some st'"
  proof (rule Cons.IH)
    show "sound {M} st1" using 1 by simp
    fix op' assume "op' \<in> set ops"
    then have "agrees M st op'" using Cons.prems(2) by simp
    then show "agrees M st1 op'" using 1 agrees_cong [of st1 st] by simp
  qed
  with e show ?case by simp
qed

subsection \<open>A pass that leaves the flag down has changed nothing\<close>

lemma fold_no_change:
  assumes "P st"
    and "\<And>x st. x \<in> set xs \<Longrightarrow> P st \<Longrightarrow> P (f x st) \<and> step_rel st (f x st)"
    and "\<not> KB_has_changed (fold f xs st)"
  shows "\<forall>x \<in> set xs. f x st = st"
  using assms
proof (induction xs arbitrary: st)
  case Nil
  show ?case by simp
next
  case (Cons a xs)
  have 1: "P (f a st) \<and> step_rel st (f a st)" using Cons.prems(1,2) by simp
  have "P (fold f xs (f a st)) \<and> step_rel (f a st) (fold f xs (f a st))"
    using 1 Cons.prems(2) by (intro fold_step_rel) auto
  then have "fold f xs (f a st) = f a st \<or> KB_has_changed (fold f xs (f a st))"
    using step_rel_chg by blast
  with Cons.prems(3) have e: "fold f xs (f a st) = f a st" by simp
  with Cons.prems(3) have "\<not> KB_has_changed (f a st)" by simp
  with 1 have a: "f a st = st" using step_rel_chg by blast
  have "\<forall>x \<in> set xs. f x st = st"
  proof (rule Cons.IH)
    show "P st" by (rule Cons.prems(1))
    show "\<And>x st. x \<in> set xs \<Longrightarrow> P st \<Longrightarrow> P (f x st) \<and> step_rel st (f x st)"
      using Cons.prems(2) by simp
    show "\<not> KB_has_changed (fold f xs st)" using Cons.prems(3) a by simp
  qed
  with a show ?case by simp
qed

lemma mark_additional_step_flag:
  assumes snd: "sound Ms st" and i: "i < length (knowledge st)"
    and r: "\<not> unresolved (knowledge st ! i)"
  shows "KB_has_changed (mark_additional_step i st)"
proof -
  let ?s = "knowledge st ! i" and ?st = "st\<lparr>KB_has_changed := True\<rparr>"
  have s: "?s \<in> set (knowledge st)" using i by simp
  have c: "cells ?s \<subseteq> undetermined st" using snd s by (rule sound_cells)
  have fin: "finite (cells ?s)" using c by (rule undetermined_finite)
  have d: "cells ?s \<inter> (safes ?st \<union> mines ?st) = {}" using undetermined_disjoint [OF c] by simp
  have "KB_has_changed (mark_mines (cells ?s) ?st)" "KB_has_changed (mark_safes (cells ?s) ?st)"
    unfolding mark_mines_eq [OF fin d] mark_safes_eq [OF fin d] by simp_all
  then show ?thesis using r
    by (auto simp add: mark_additional_step_def known_mines_def known_safes_def Let_def unresolved_def)
qed

lemma mark_additional_cells_quiet:
  assumes snd: "sound Ms st" and f: "\<not> KB_has_changed (mark_additional_cells st)"
  shows "\<forall>s \<in> set (knowledge st). unresolved s"
proof -
  let ?P = "\<lambda>x. sound Ms x \<and> length (knowledge st) \<le> length (knowledge x)"
  have nc: "\<forall>i \<in> set [0 ..< length (knowledge st)]. mark_additional_step i st = st"
  proof (rule fold_no_change [where P = ?P])
    show "?P st" using snd by simp
  next
    fix i x assume i: "i \<in> set [0 ..< length (knowledge st)]" and x: "?P x"
    then have "i < length (knowledge x)" by simp
    with x have r: "sound Ms (mark_additional_step i x) \<and> step_rel x (mark_additional_step i x)"
      by (intro mark_additional_step_sound) simp_all
    then have "length (knowledge x) \<le> length (knowledge (mark_additional_step i x))"
      using step_rel_frame(6) by blast
    with r x show "?P (mark_additional_step i x) \<and> step_rel x (mark_additional_step i x)"
      by simp
  next
    show "\<not> KB_has_changed (fold mark_additional_step [0 ..< length (knowledge st)] st)"
      using f by (simp add: mark_additional_cells_def)
  qed
  have "step_rel st (mark_additional_cells st)" using mark_additional_cells_sound [OF snd] by simp
  then have "mark_additional_cells st = st" using f step_rel_chg by blast
  with f have nf: "\<not> KB_has_changed st" by simp
  show ?thesis
  proof
    fix s assume "s \<in> set (knowledge st)"
    then obtain i where i: "i < length (knowledge st)" and s: "s = knowledge st ! i"
      by (auto simp: in_set_conv_nth)
    have "mark_additional_step i st = st" using nc i by simp
    then have "\<not> KB_has_changed (mark_additional_step i st)" using nf by simp
    then show "unresolved s" using mark_additional_step_flag [OF snd i] s by blast
  qed
qed

lemma pass_quiet:
  assumes snd: "sound Ms st"
    and f: "\<not> KB_has_changed (add_inferred_sentence (mark_additional_cells st))"
  shows "\<forall>s \<in> set (knowledge (add_inferred_sentence (mark_additional_cells st))). unresolved s"
proof -
  let ?m = "mark_additional_cells st"
  have m: "sound Ms ?m" using mark_additional_cells_sound [OF snd] by simp
  have "step_rel ?m (add_inferred_sentence ?m)" using add_inferred_sentence_sound [OF m] by simp
  then have e: "add_inferred_sentence ?m = ?m" using f step_rel_chg by blast
  then have "\<not> KB_has_changed ?m" using f by simp
  then have "\<forall>s \<in> set (knowledge st). unresolved s" using snd by (intro mark_additional_cells_quiet)
  moreover have "step_rel st ?m" using mark_additional_cells_sound [OF snd] by simp
  then have "?m = st" using \<open>\<not> KB_has_changed ?m\<close> step_rel_chg by blast
  ultimately show ?thesis using e by simp
qed

lemma fixpoint_loop_unresolved:
  assumes ret: "fixpoint_loop st = Some st'"
  shows "sound Ms st \<and> (\<not> KB_has_changed st \<longrightarrow> (\<forall>s \<in> set (knowledge st). unresolved s)) \<longrightarrow>
         (\<forall>s \<in> set (knowledge st'). unresolved s)"
proof (rule fixpoint_loop.raw_induct
    [where P = "\<lambda>st st'. sound Ms st \<and> (\<not> KB_has_changed st \<longrightarrow> (\<forall>s \<in> set (knowledge st). unresolved s)) \<longrightarrow>
         (\<forall>s \<in> set (knowledge st'). unresolved s)", OF _ ret])
  fix f st st'
  assume IH: "\<And>st st'. f st = Some st' \<Longrightarrow>
      sound Ms st \<and> (\<not> KB_has_changed st \<longrightarrow> (\<forall>s \<in> set (knowledge st). unresolved s)) \<longrightarrow>
         (\<forall>s \<in> set (knowledge st'). unresolved s)"
    and eq: "(if KB_has_changed st
       then f (add_inferred_sentence (mark_additional_cells (st\<lparr>KB_has_changed := False\<rparr>)))
       else Some st) = Some st'"
  show "sound Ms st \<and> (\<not> KB_has_changed st \<longrightarrow> (\<forall>s \<in> set (knowledge st). unresolved s)) \<longrightarrow>
         (\<forall>s \<in> set (knowledge st'). unresolved s)"
  proof (cases "KB_has_changed st")
    case True
    with eq have "f (loop_body st) = Some st'" by (simp add: loop_body_def)
    note 1 = IH [OF this]
    show ?thesis
    proof
      assume a: "sound Ms st \<and> (\<not> KB_has_changed st \<longrightarrow> (\<forall>s \<in> set (knowledge st). unresolved s))"
      then have s0: "sound Ms (st\<lparr>KB_has_changed := False\<rparr>)" by (simp add: sound_flag)
      have "sound Ms (loop_body st)" using a loop_body_sound by blast
      moreover have "\<not> KB_has_changed (loop_body st) \<longrightarrow> (\<forall>s \<in> set (knowledge (loop_body st)). unresolved s)"
        unfolding loop_body_def using pass_quiet [OF s0] by blast
      ultimately show "\<forall>s \<in> set (knowledge st'). unresolved s" using 1 by blast
    qed
  next
    case False
    with eq show ?thesis by auto
  qed
qed

lemma add_knowledge_unresolved:
  assumes snd: "sound {} st" and ret: "add_knowledge c n st = Some st'"
  shows "\<forall>s \<in> set (knowledge st'). unresolved s"
proof -
  let ?s2 = "add_new_sentence c n (mark_safe c (st\<lparr>moves_made := insert c (moves_made st)\<rparr>))"
  have "sound {} (mark_safe c (st\<lparr>moves_made := insert c (moves_made st)\<rparr>))"
    using snd by (intro mark_safe_sound) (simp_all add: sound_moves_made)
  then have 2: "sound {} ?s2" using add_new_sentence_sound [of "{}"] by blast
  have e: "sound {} (entry_state c n st)" using snd by (intro entry_state_sound) simp_all
  have q: "\<not> KB_has_changed (entry_state c n st) \<longrightarrow>
      (\<forall>s \<in> set (knowledge (entry_state c n st)). unresolved s)"
    unfolding entry_state_def using pass_quiet [OF 2] by blast
  from ret have "fixpoint_loop (entry_state c n st) = Some st'" by (simp add: add_knowledge_alt)
  from fixpoint_loop_unresolved [OF this, of "{}"] e q show ?thesis by blast
qed

subsection \<open>The registries grow\<close>

lemma grows_refl: "grows st st"
  by (simp add: grows_def)

lemma grows_trans: "grows a b \<Longrightarrow> grows b c \<Longrightarrow> grows a c"
  unfolding grows_def by blast

lemma fold_grows:
  assumes "\<And>x st. grows st (f x st)"
  shows "grows st (fold f xs st)"
proof (induction xs arbitrary: st)
  case Nil
  show ?case by (simp add: grows_refl)
next
  case (Cons a xs)
  have "grows st (f a st)" by (rule assms)
  moreover have "grows (f a st) (fold f xs (f a st))" by (rule Cons.IH)
  ultimately show ?case by (simp add: grows_trans [of st "f a st"])
qed

lemma mark_safe_grows: "grows st (mark_safe c st)"
  by (auto simp: grows_def mark_safe_def)

lemma mark_mine_grows: "grows st (mark_mine c st)"
  by (auto simp: grows_def mark_mine_def)

lemma mark_safes_grows: "grows st (mark_safes S st)"
  unfolding mark_safes_def by (rule fold_grows) (simp add: mark_safe_grows grows_refl)

lemma mark_mines_grows: "grows st (mark_mines S st)"
  unfolding mark_mines_def by (rule fold_grows) (simp add: mark_mine_grows grows_refl)

lemma clean_up_grows: "grows st (snd (clean_up cs n st))"
  unfolding clean_up_def Let_def case_prod_beta
  by (simp add: mark_safes_grows mark_mines_grows grows_refl)

lemma add_if_new_grows: "grows st (add_if_new so st)"
  by (cases so) (simp_all add: add_if_new_def grows_def)

lemma clean_up_add_grows:
  "grows st (add_if_new (fst (clean_up cs n st)) (snd (clean_up cs n st)))"
  using clean_up_grows add_if_new_grows by (rule grows_trans)

lemma add_new_sentence_grows: "grows st (add_new_sentence c n st)"
  unfolding add_new_sentence_alt by (rule clean_up_add_grows)

lemma mark_additional_step_grows: "grows st (mark_additional_step i st)"
proof -
  have "grows st (st\<lparr>KB_has_changed := True\<rparr>)" by (simp add: grows_def)
  then have "grows st (mark_mines S (st\<lparr>KB_has_changed := True\<rparr>))"
     "grows st (mark_safes S (st\<lparr>KB_has_changed := True\<rparr>))" for S
    using mark_mines_grows mark_safes_grows by (blast intro: grows_trans)+
  then show ?thesis by (simp add: mark_additional_step_def Let_def grows_refl)
qed

lemma mark_additional_cells_grows: "grows st (mark_additional_cells st)"
  unfolding mark_additional_cells_def by (rule fold_grows) (rule mark_additional_step_grows)

lemma infer_pair_grows: "grows st (infer_pair p st)"
  unfolding infer_pair_alt by (simp add: clean_up_add_grows grows_refl)

lemma add_inferred_sentence_grows: "grows st (add_inferred_sentence st)"
  unfolding add_inferred_sentence_alt by (rule fold_grows) (rule infer_pair_grows)

lemma loop_body_grows: "grows st (loop_body st)"
proof -
  let ?s0 = "st\<lparr>KB_has_changed := False\<rparr>"
  have "grows st ?s0" by (simp add: grows_def)
  moreover have "grows ?s0 (mark_additional_cells ?s0)" by (rule mark_additional_cells_grows)
  moreover have "grows (mark_additional_cells ?s0) (loop_body st)"
    unfolding loop_body_def by (rule add_inferred_sentence_grows)
  ultimately show ?thesis by (blast intro: grows_trans)
qed

lemma fixpoint_loop_grows:
  assumes ret: "fixpoint_loop st = Some st'"
  shows "grows st st'"
proof (rule fixpoint_loop.raw_induct [where P = grows, OF _ ret])
  fix f st st'
  assume IH: "\<And>st st'. f st = Some st' \<Longrightarrow> grows st st'"
    and eq: "(if KB_has_changed st
       then f (add_inferred_sentence (mark_additional_cells (st\<lparr>KB_has_changed := False\<rparr>)))
       else Some st) = Some st'"
  show "grows st st'"
  proof (cases "KB_has_changed st")
    case True
    with eq have "f (loop_body st) = Some st'" by (simp add: loop_body_def)
    then have "grows (loop_body st) st'" by (rule IH)
    with loop_body_grows show ?thesis by (rule grows_trans)
  next
    case False
    with eq show ?thesis by (simp add: grows_refl)
  qed
qed

lemma entry_state_grows: "grows st (entry_state c n st)"
proof -
  let ?s0 = "st\<lparr>moves_made := insert c (moves_made st)\<rparr>"
  let ?s1 = "mark_safe c ?s0"
  let ?s2 = "add_new_sentence c n ?s1"
  let ?s3 = "mark_additional_cells ?s2"
  have "grows st ?s0" by (auto simp: grows_def)
  moreover have "grows ?s0 ?s1" by (rule mark_safe_grows)
  moreover have "grows ?s1 ?s2" by (rule add_new_sentence_grows)
  moreover have "grows ?s2 ?s3" by (rule mark_additional_cells_grows)
  moreover have "grows ?s3 (entry_state c n st)"
    unfolding entry_state_def by (rule add_inferred_sentence_grows)
  ultimately show ?thesis by (blast intro: grows_trans)
qed

lemma exec_grows: "exec op st = Some st' \<Longrightarrow> grows st st'"
proof (cases op)
  case (Observe c n)
  assume "exec op st = Some st'"
  with Observe have "fixpoint_loop (entry_state c n st) = Some st'" by (simp add: add_knowledge_alt)
  then have "grows (entry_state c n st) st'" by (rule fixpoint_loop_grows)
  with entry_state_grows show ?thesis by (rule grows_trans)
qed (auto simp: mark_mine_grows mark_safe_grows grows_refl make_safe_move_def make_random_move_def Let_def)

lemma run_grows: "run ops st = Some st' \<Longrightarrow> grows st st'"
proof (induction ops arbitrary: st)
  case Nil
  then show ?case by (simp add: grows_refl)
next
  case (Cons op ops)
  from Cons.prems obtain st1 where e: "exec op st = Some st1" and r: "run ops st1 = Some st'"
    by (auto split: option.splits)
  from exec_grows [OF e] Cons.IH [OF r] show ?case by (rule grows_trans)
qed

subsection \<open>Move selection\<close>

lemma set_pop_in:
  assumes "finite S" "S \<noteq> {}"
  shows "set_pop S \<in> S"
proof -
  have "iter S \<noteq> []" using assms by (simp add: iter_def)
  then have "hd (iter S) \<in> set (iter S)" by simp
  then show ?thesis using assms(1) by (simp add: set_pop_def set_iter)
qed

subsection \<open>What a clue leaves untouched\<close>

lemma fixpoint_loop_length:
  assumes ret: "fixpoint_loop st = Some st'"
  shows "sound {} st \<longrightarrow> length (knowledge st) \<le> length (knowledge st')"
proof (rule fixpoint_loop.raw_induct
    [where P = "\<lambda>st st'. sound {} st \<longrightarrow> length (knowledge st) \<le> length (knowledge st')", OF _ ret])
  fix f st st'
  assume IH: "\<And>st st'. f st = Some st' \<Longrightarrow> sound {} st \<longrightarrow> length (knowledge st) \<le> length (knowledge st')"
    and eq: "(if KB_has_changed st
       then f (add_inferred_sentence (mark_additional_cells (st\<lparr>KB_has_changed := False\<rparr>)))
       else Some st) = Some st'"
  show "sound {} st \<longrightarrow> length (knowledge st) \<le> length (knowledge st')"
  proof (cases "KB_has_changed st")
    case True
    with eq have "f (loop_body st) = Some st'" by (simp add: loop_body_def)
    then have 1: "sound {} (loop_body st) \<longrightarrow> length (knowledge (loop_body st)) \<le> length (knowledge st')"
      by (rule IH)
    show ?thesis
    proof
      assume s: "sound {} st"
      note b = loop_body_sound [OF s]
      have "length (knowledge st) \<le> length (knowledge (loop_body st))"
        using step_rel_frame(6) [of "st\<lparr>KB_has_changed := False\<rparr>" "loop_body st"] b by simp
      with 1 b show "length (knowledge st) \<le> length (knowledge st')" by simp
    qed
  next
    case False
    with eq show ?thesis by simp
  qed
qed

lemma entry_state_length:
  assumes snd: "sound {} st"
  shows "length (knowledge st) \<le> length (knowledge (entry_state c n st))"
proof -
  let ?s1 = "mark_safe c (st\<lparr>moves_made := insert c (moves_made st)\<rparr>)"
  let ?s2 = "add_new_sentence c n ?s1"
  have l1: "length (knowledge ?s1) = length (knowledge st)" by (simp add: mark_safe_def)
  have 1: "sound {} ?s1" using snd by (intro mark_safe_sound) (simp_all add: sound_moves_made)
  have 2: "sound {} ?s2 \<and> step_rel ?s1 ?s2"
    using 1 by (intro add_new_sentence_sound) simp_all
  have 3: "step_rel ?s2 (add_inferred_sentence (mark_additional_cells ?s2))"
    using 2 pass_sound [of "{}" ?s2] by simp
  have "step_rel ?s1 (entry_state c n st)"
    using 2 3 unfolding entry_state_def by (blast intro: step_rel_trans [of ?s1 ?s2])
  from step_rel_frame(6) [OF this] l1 show ?thesis by simp
qed

lemma clean_up_add_closed:
  assumes "finite cs"
  shows "add_if_new (fst (clean_up cs n st)) (snd (clean_up cs n st)) =
     (if remaining_cells cs st = {} then st
      else if remaining_count cs n st = 0
      then st\<lparr>safes := safes st \<union> remaining_cells cs st,
              knowledge := map (\<lambda>s. s\<lparr>cells := cells s - remaining_cells cs st\<rparr>) (knowledge st),
              KB_has_changed := True\<rparr>
      else if int (card (remaining_cells cs st)) = remaining_count cs n st
      then st\<lparr>mines := mines st \<union> remaining_cells cs st,
              knowledge := map (\<lambda>s. s\<lparr>cells := cells s - remaining_cells cs st,
                                       count := count s - int (card (cells s \<inter> remaining_cells cs st))\<rparr>)
                             (knowledge st),
              KB_has_changed := True\<rparr>
      else if \<lparr>cells = remaining_cells cs st, count = remaining_count cs n st\<rparr> \<in> set (knowledge st)
      then st
      else st\<lparr>KB_has_changed := True,
              knowledge := knowledge st @
                [\<lparr>cells = remaining_cells cs st, count = remaining_count cs n st\<rparr>]\<rparr>)"
proof -
  let ?T = "remaining_cells cs st"
  have fin: "finite ?T" using assms by (simp add: remaining_cells_def)
  have d: "?T \<inter> (safes st \<union> mines st) = {}" by (auto simp: remaining_cells_def)
  have s: "shrink_safe ?T = (\<lambda>s. s\<lparr>cells := cells s - ?T\<rparr>)"
    by (rule ext) (simp add: shrink_safe_def)
  have m: "shrink_mine ?T = (\<lambda>s. s\<lparr>cells := cells s - ?T, count := count s - int (card (cells s \<inter> ?T))\<rparr>)"
    by (rule ext) (simp add: shrink_mine_def)
  show ?thesis
    unfolding clean_up_closed [OF assms] mark_safes_eq [OF fin d] mark_mines_eq [OF fin d] s m
    by (simp add: add_if_new_Some)
qed

text \<open>
  No cell enters both registries, except by \<^verbatim>\<open>mark_mine\<close> called on a cell that is
  known safe.
\<close>

lemma fixpoint_loop_exclusion:
  assumes ret: "fixpoint_loop st = Some st'"
  shows "sound {} st \<longrightarrow> safes st' \<inter> mines st' = safes st \<inter> mines st"
proof (rule fixpoint_loop.raw_induct
    [where P = "\<lambda>st st'. sound {} st \<longrightarrow> safes st' \<inter> mines st' = safes st \<inter> mines st", OF _ ret])
  fix f st st'
  assume IH: "\<And>st st'. f st = Some st' \<Longrightarrow>
      sound {} st \<longrightarrow> safes st' \<inter> mines st' = safes st \<inter> mines st"
    and eq: "(if KB_has_changed st
       then f (add_inferred_sentence (mark_additional_cells (st\<lparr>KB_has_changed := False\<rparr>)))
       else Some st) = Some st'"
  show "sound {} st \<longrightarrow> safes st' \<inter> mines st' = safes st \<inter> mines st"
  proof (cases "KB_has_changed st")
    case True
    with eq have "f (loop_body st) = Some st'" by (simp add: loop_body_def)
    then have 1: "sound {} (loop_body st) \<longrightarrow>
        safes st' \<inter> mines st' = safes (loop_body st) \<inter> mines (loop_body st)"
      by (rule IH)
    show ?thesis
    proof
      assume s: "sound {} st"
      note b = loop_body_sound [OF s]
      have "safes (loop_body st) \<inter> mines (loop_body st) = safes st \<inter> mines st"
        using step_rel_frame(7) [of "st\<lparr>KB_has_changed := False\<rparr>" "loop_body st"] b by simp
      with 1 b show "safes st' \<inter> mines st' = safes st \<inter> mines st" by simp
    qed
  next
    case False
    with eq show ?thesis by simp
  qed
qed

lemma entry_state_exclusion:
  assumes snd: "sound {} st"
  shows "safes (entry_state c n st) \<inter> mines (entry_state c n st) = safes st \<inter> mines st"
proof -
  let ?s1 = "mark_safe c (st\<lparr>moves_made := insert c (moves_made st)\<rparr>)"
  let ?s2 = "add_new_sentence c n ?s1"
  have l1: "safes ?s1 \<inter> mines ?s1 = safes st \<inter> mines st" by (auto simp: mark_safe_def)
  have 1: "sound {} ?s1" using snd by (intro mark_safe_sound) (simp_all add: sound_moves_made)
  have 2: "sound {} ?s2 \<and> step_rel ?s1 ?s2"
    using 1 by (intro add_new_sentence_sound) simp_all
  have 3: "step_rel ?s2 (add_inferred_sentence (mark_additional_cells ?s2))"
    using 2 pass_sound [of "{}" ?s2] by simp
  have "step_rel ?s1 (entry_state c n st)"
    using 2 3 unfolding entry_state_def by (blast intro: step_rel_trans [of ?s1 ?s2])
  from step_rel_frame(7) [OF this] l1 show ?thesis by simp
qed

lemma make_safe_move_state: "snd (make_safe_move st) = st"
  by (simp add: make_safe_move_def Let_def)

lemma make_random_move_state: "snd (make_random_move st) = st"
  by (simp add: make_random_move_def Let_def)

lemma exclusion_kept:
  assumes r: "run ops (init h w) = Some st" and ex: "exec op st = Some st'"
    and mm: "\<And>c. op = Mark_Mine c \<Longrightarrow> c \<notin> safes st"
  shows "safes st' \<inter> mines st' = safes st \<inter> mines st"
proof -
  have snd: "sound {} st" using sound_init _ r by (rule run_sound [THEN conjunct1]) simp
  show ?thesis
  proof (cases op)
    case (Observe c n)
    with ex have l: "fixpoint_loop (entry_state c n st) = Some st'" by (simp add: add_knowledge_alt)
    have "sound {} (entry_state c n st)" using snd by (intro entry_state_sound) simp_all
    then have "safes st' \<inter> mines st' = safes (entry_state c n st) \<inter> mines (entry_state c n st)"
      using fixpoint_loop_exclusion [OF l] by simp
    then show ?thesis using entry_state_exclusion [OF snd, of c n] by simp
  next
    case (Mark_Mine c)
    then show ?thesis using ex mm [of c] by (auto simp: mark_mine_def split: if_splits)
  next
    case (Mark_Safe c)
    then show ?thesis using ex by (auto simp: mark_safe_def split: if_splits)
  next
    case Safe_Move
    then show ?thesis using ex by (simp add: make_safe_move_state)
  next
    case Random_Move
    then show ?thesis using ex by (simp add: make_random_move_state)
  qed
qed

lemma consistent_run_disjoint:
  assumes "run ops (init h w) = Some st" and "\<forall>op \<in> set ops. agrees M (init h w) op"
  shows "safes st \<inter> mines st = {}"
proof -
  have snd: "sound {M} st"
    using sound_init _ assms(1) by (rule run_sound [THEN conjunct1]) (use assms(2) in simp)
  have "mines st \<subseteq> M" "safes st \<inter> M = {}"
    using sound_mines [OF snd] sound_safes [OF snd] by simp_all
  then show ?thesis by blast
qed

subsection \<open>Concrete runs\<close>

lemma run_3x3_first: "run [Observe (1, 1) 1] (init 3 3) = Some kb_3x3_1"
  by code_simp

lemma run_3x3_two: "run [Observe (1, 1) 1, Observe (0, 1) 1] (init 3 3) = Some kb_3x3_2"
  by code_simp

lemma run_3x3_rest: "run [Observe (0, 1) 1, Observe (1, 0) 1] kb_3x3_1 = Some kb_3x3_3"
  by code_simp

lemma scenario_3x3_run:
  "run [Observe (1, 1) 1, Observe (0, 1) 1, Observe (1, 0) 1] (init 3 3) = Some kb_3x3_3"
  by code_simp

lemma agrees_3x3:
  "\<forall>op \<in> set [Observe (1, 1) 1, Observe (0, 1) 1, Observe (1, 0) 1].
     agrees {(0, 0)} (init 3 3) op"
  by code_simp

lemma agrees_3x3_two:
  "\<forall>op \<in> set [Observe (1, 1) 1, Observe (0, 1) 1]. agrees {(0, 0)} (init 3 3) op"
  by code_simp

lemma run_1x3_first: "run [Observe (0, 1) 1] (init 1 3) = Some kb_1x3_1"
  by code_simp

lemma add_knowledge_1x3_second: "add_knowledge (0, 0) 0 kb_1x3_1 = Some kb_1x3_2"
  by code_simp

lemma sound_kb_pair: "sound {} kb_pair"
  by (auto simp: sound_def kb_pair_def undetermined_def all_possible_moves_iff)

lemma unique_pairs_kb_pair: "unique_pairs kb_pair = [(0, 1)]"
  by code_simp

section \<open>The claims\<close>

subsection \<open>C1: pairwise inference\<close>

text \<open>
  Claim C1. In a state whose sentences speak of undetermined board cells only, let two
  sentences be stored at positions \<open>i < j\<close>, both different from the empty sentence and
  from each other, and let \<open>A\<close> be the one whose cells are a strict subset of the cells of
  the other, \<open>B\<close>. Then the pass of pairwise inference processes the pair \<open>(i, j)\<close>, and
  processing it derives the candidate with cells \<open>D = B.cells - A.cells\<close> and count
  \<open>k = B.count - A.count\<close> and resolves it at once: if \<open>k = 0\<close> the cells of \<open>D\<close>
  become safe, if \<open>k = |D|\<close> they become mines (and in both cases they leave every stored
  sentence and nothing is stored), and otherwise the sentence \<open>D = k\<close> is appended to
  the knowledge list unless an equal sentence is stored already.
\<close>

theorem pairwise_inference:
  assumes snd: "sound {} st"
    and ij: "i < j" "j < length (knowledge st)"
    and ne: "knowledge st ! i \<noteq> empty_sentence" "knowledge st ! j \<noteq> empty_sentence"
      "knowledge st ! i \<noteq> knowledge st ! j"
    and ab: "a = i \<and> b = j \<or> a = j \<and> b = i"
    and sub: "cells (knowledge st ! a) \<subset> cells (knowledge st ! b)"
    and D: "D = cells (knowledge st ! b) - cells (knowledge st ! a)"
    and k: "k = count (knowledge st ! b) - count (knowledge st ! a)"
  shows "(i, j) \<in> set (unique_pairs st) \<and>
     add_inferred_sentence st = fold infer_pair (unique_pairs st) st \<and>
     infer_pair (i, j) st =
       (if k = 0
        then st\<lparr>safes := safes st \<union> D,
                knowledge := map (\<lambda>s. s\<lparr>cells := cells s - D\<rparr>) (knowledge st),
                KB_has_changed := True\<rparr>
        else if int (card D) = k
        then st\<lparr>mines := mines st \<union> D,
                knowledge := map (\<lambda>s. s\<lparr>cells := cells s - D,
                                         count := count s - int (card (cells s \<inter> D))\<rparr>) (knowledge st),
                KB_has_changed := True\<rparr>
        else if \<lparr>cells = D, count = k\<rparr> \<in> set (knowledge st) then st
        else st\<lparr>KB_has_changed := True, knowledge := knowledge st @ [\<lparr>cells = D, count = k\<rparr>]\<rparr>)"
proof -
  let ?A = "knowledge st ! a" and ?B = "knowledge st ! b"
  have a: "a < length (knowledge st)" and b: "b < length (knowledge st)" using ab ij by auto
  have "?B \<in> set (knowledge st)" using b by simp
  with snd have B: "cells ?B \<subseteq> undetermined st" by (rule sound_cells)
  have finD: "finite D" using B unfolding D by (intro undetermined_finite [of _ st]) auto
  have dis: "D \<inter> (safes st \<union> mines st) = {}"
    using undetermined_disjoint [OF B] unfolding D by auto
  have rc: "remaining_cells D st = D" using dis unfolding remaining_cells_def by auto
  have "D \<inter> (mines st - safes st) = {}" using dis by auto
  then have rk: "remaining_count D k st = k" unfolding remaining_count_def by simp
  have ne: "D \<noteq> {}" using sub unfolding D by auto
  have nsub: "\<not> cells ?B \<subset> cells ?A" using sub by auto
  have "infer_pair (i, j) st = add_if_new (fst (clean_up D k st)) (snd (clean_up D k st))"
    using ab sub nsub unfolding D k by (auto simp: infer_pair_alt)
  then have 3: "infer_pair (i, j) st =
       (if k = 0
        then st\<lparr>safes := safes st \<union> D,
                knowledge := map (\<lambda>s. s\<lparr>cells := cells s - D\<rparr>) (knowledge st),
                KB_has_changed := True\<rparr>
        else if int (card D) = k
        then st\<lparr>mines := mines st \<union> D,
                knowledge := map (\<lambda>s. s\<lparr>cells := cells s - D,
                                         count := count s - int (card (cells s \<inter> D))\<rparr>) (knowledge st),
                KB_has_changed := True\<rparr>
        else if \<lparr>cells = D, count = k\<rparr> \<in> set (knowledge st) then st
        else st\<lparr>KB_has_changed := True, knowledge := knowledge st @ [\<lparr>cells = D, count = k\<rparr>]\<rparr>)"
    unfolding clean_up_add_closed [OF finD] rc rk using ne by simp
  have 1: "(i, j) \<in> set (unique_pairs st)" using ij assms(4-6) by (simp add: unique_pairs_iff)
  show ?thesis using 1 3 add_inferred_sentence_alt by simp
qed

text \<open>
  The instance of the claim: from \<open>{(0,0), (0,1)} = 1\<close> and \<open>{(0,0), (0,1), (0,2)} = 2\<close>
  the pass derives \<open>{(0,2)} = 1\<close>, which makes \<open>(0, 2)\<close> a mine at once.
\<close>

theorem pairwise_inference_witness:
  "infer_pair (0, 1) kb_pair = kb_pair_after \<and> add_inferred_sentence kb_pair = kb_pair_after \<and>
   (0, 2) \<in> mines kb_pair_after"
proof -
  have k: "knowledge kb_pair = [\<lparr>cells = {(0, 0), (0, 1)}, count = 1\<rparr>,
                  \<lparr>cells = {(0, 0), (0, 1), (0, 2)}, count = 2\<rparr>]"
    by (simp add: kb_pair_def)
  have D: "{(0::int, 2::int)} = cells (knowledge kb_pair ! 1) - cells (knowledge kb_pair ! 0)"
    unfolding k by auto
  have c: "1 = count (knowledge kb_pair ! 1) - count (knowledge kb_pair ! 0)"
    unfolding k by simp
  have sub: "cells (knowledge kb_pair ! 0) \<subset> cells (knowledge kb_pair ! 1)"
    by code_simp
  have ne: "knowledge kb_pair ! 0 \<noteq> empty_sentence" "knowledge kb_pair ! 1 \<noteq> empty_sentence"
      "knowledge kb_pair ! 0 \<noteq> knowledge kb_pair ! 1"
    by code_simp+
  have l: "1 < length (knowledge kb_pair)" unfolding k by simp
  note t = pairwise_inference [OF sound_kb_pair zero_less_one l ne _ sub D c]
  have 1: "infer_pair (0, 1) kb_pair = kb_pair_after"
    using t by (auto simp add: kb_pair_def kb_pair_after_def)
  have "add_inferred_sentence kb_pair = fold infer_pair (unique_pairs kb_pair) kb_pair"
    using t by simp
  then have 2: "add_inferred_sentence kb_pair = kb_pair_after"
    using 1 by (simp add: unique_pairs_kb_pair)
  show ?thesis using 1 2 by (simp add: kb_pair_after_def)
qed

subsection \<open>C2: cleanup and immediate resolution\<close>

text \<open>
  Claim C2, as the code has it. For a candidate with finitely many cells \<open>cs\<close> and count
  \<open>n\<close>, cleanup removes the cells known safe (count untouched) and the cells known as
  mines (count less one for each that is not also known safe). If no cell remains, nothing
  is marked and nothing is stored, whatever the count that remains. If cells remain and
  the remaining count is 0, they all become safe and leave every stored sentence, and
  nothing is stored; if their number is the remaining count, they all become mines
  likewise; otherwise the cleaned sentence is appended to the knowledge list unless an
  equal sentence is stored already. This is what \<^verbatim>\<open>add_new_sentence\<close> does with the
  neighbours of a clue, and \<^verbatim>\<open>add_inferred_sentence\<close> with a derived candidate.
\<close>

theorem cleanup_and_resolution:
  assumes "finite cs"
  shows "add_if_new (fst (clean_up cs n st)) (snd (clean_up cs n st)) =
     (if remaining_cells cs st = {} then st
      else if remaining_count cs n st = 0
      then st\<lparr>safes := safes st \<union> remaining_cells cs st,
              knowledge := map (\<lambda>s. s\<lparr>cells := cells s - remaining_cells cs st\<rparr>) (knowledge st),
              KB_has_changed := True\<rparr>
      else if int (card (remaining_cells cs st)) = remaining_count cs n st
      then st\<lparr>mines := mines st \<union> remaining_cells cs st,
              knowledge := map (\<lambda>s. s\<lparr>cells := cells s - remaining_cells cs st,
                                       count := count s - int (card (cells s \<inter> remaining_cells cs st))\<rparr>)
                             (knowledge st),
              KB_has_changed := True\<rparr>
      else if \<lparr>cells = remaining_cells cs st, count = remaining_count cs n st\<rparr> \<in> set (knowledge st)
      then st
      else st\<lparr>KB_has_changed := True,
              knowledge := knowledge st @
                [\<lparr>cells = remaining_cells cs st, count = remaining_count cs n st\<rparr>]\<rparr>)
     \<and> add_new_sentence c n st =
         add_if_new (fst (clean_up (neighbors st c) n st)) (snd (clean_up (neighbors st c) n st))"
  using clean_up_add_closed [OF assms] add_new_sentence_alt by simp

text \<open>
  After the first clue of the 3 by 3 scenario, the candidate of the clue \<open>(0,1) -> 1\<close>
  loses the safe cell \<open>(1, 1)\<close> and is stored.
\<close>

theorem cleanup_and_resolution_witness:
  "add_if_new (fst (clean_up {(0, 0), (0, 2), (1, 0), (1, 1), (1, 2)} 1 kb_3x3_1))
     (snd (clean_up {(0, 0), (0, 2), (1, 0), (1, 1), (1, 2)} 1 kb_3x3_1)) =
   kb_3x3_1\<lparr>KB_has_changed := True,
     knowledge := knowledge kb_3x3_1 @ [\<lparr>cells = {(0, 0), (0, 2), (1, 0), (1, 2)}, count = 1\<rparr>]\<rparr>"
proof -
  have f: "finite {(0::int, 0::int), (0, 2), (1, 0), (1, 1), (1, 2)}" by simp
  have r: "remaining_cells {(0, 0), (0, 2), (1, 0), (1, 1), (1, 2)} kb_3x3_1 =
      {(0, 0), (0, 2), (1, 0), (1, 2)}"
    by (auto simp: remaining_cells_def kb_3x3_1_def)
  have k: "remaining_count {(0, 0), (0, 2), (1, 0), (1, 1), (1, 2)} 1 kb_3x3_1 = 1"
    by (simp add: remaining_count_def kb_3x3_1_def)
  have n: "\<lparr>cells = {(0::int, 0::int), (0, 2), (1, 0), (1, 2)}, count = 1\<rparr> \<notin> set (knowledge kb_3x3_1)"
    by code_simp
  show ?thesis
    using cleanup_and_resolution [OF f, of 1 kb_3x3_1 "(0, 1)"] n unfolding r k by simp
qed

text \<open>
  Where the claim, as stated, fails: on a 1 by 2 board the clue \<open>(0,0) -> 0\<close> makes both
  cells safe. The candidate of a second clue \<open>(0,1) -> 1\<close> has the one cell \<open>(0, 0)\<close>;
  cleanup leaves no cell and the count 1, which is neither 0 nor the number of remaining
  cells, and yet no sentence is stored.
\<close>

theorem cleanup_and_resolution_counterexample:
  "run [Observe (0, 0) 0] (init 1 2) = Some kb_1x2 \<and>
   neighbors kb_1x2 (0, 1) = {(0, 0)} \<and>
   clean_up {(0, 0)} 1 kb_1x2 = (None, kb_1x2) \<and>
   add_new_sentence (0, 1) 1 kb_1x2 = kb_1x2 \<and>
   knowledge kb_1x2 = []"
  by code_simp

subsection \<open>C3: the end-to-end scenario\<close>

text \<open>
  Claim C3. On a fresh knowledge base for a 3 by 3 grid, the three clues
  \<open>(1,1) -> 1\<close>, \<open>(0,1) -> 1\<close>, \<open>(1,0) -> 1\<close> are all ingested (each call of
  \<^verbatim>\<open>add_knowledge\<close> returns), and afterwards \<open>mines\<close> is exactly \<open>{(0,0)}\<close> and
  \<open>safes\<close> is exactly the set of the eight other cells.
\<close>

theorem scenario_3x3:
  "\<exists>st. run [Observe (1, 1) 1, Observe (0, 1) 1, Observe (1, 0) 1] (init 3 3) = Some st
     \<and> mines st = {(0, 0)}
     \<and> safes st = {(0, 1), (0, 2), (1, 0), (1, 1), (1, 2), (2, 0), (2, 1), (2, 2)}"
  unfolding scenario_3x3_run by (auto simp: kb_3x3_3_def)

subsection \<open>C4: mutual exclusion of the registries\<close>

text \<open>
  Claim C4 says that no cell is ever in \<open>safes\<close> and in \<open>mines\<close>. \<^verbatim>\<open>mark_safe\<close>
  refuses a cell that is a known mine, but \<^verbatim>\<open>mark_mine\<close> does not refuse a cell that is
  known safe: marking \<open>(0, 0)\<close> safe and then as a mine leaves it in both sets. Every
  other step keeps the two sets apart (\<open>exclusion_kept\<close>).
\<close>

theorem mutual_exclusion_failing_input:
  "run [Mark_Safe (0, 0), Mark_Mine (0, 0)] (init 3 3) =
     Some \<lparr>height = 3, width = 3, moves_made = {}, mines = {(0, 0)}, safes = {(0, 0)},
       knowledge = [], KB_has_changed = True\<rparr>"
  by code_simp

subsection \<open>C5: the sentence invariant\<close>

text \<open>
  Claim C5, as the code has it. After any sequence of public operations on a fresh
  knowledge base, no cell of a stored sentence is in \<open>safes\<close> or in \<open>mines\<close>. If
  moreover all the operations agree with one mine layout \<open>M\<close> (the clues are the true
  counts of a board and the marks are true), every stored sentence has
  \<open>0 \<le> count \<le> |cells|\<close>. The source checks neither its clues nor its marks.
\<close>

theorem sentence_invariant:
  assumes "run ops (init h w) = Some st" and "s \<in> set (knowledge st)"
  shows "cells s \<inter> (safes st \<union> mines st) = {} \<and>
     ((\<forall>op \<in> set ops. agrees M (init h w) op) \<longrightarrow> 0 \<le> count s \<and> count s \<le> int (card (cells s)))"
proof
  have "sound {} st" using sound_init _ assms(1) by (rule run_sound [THEN conjunct1]) simp
  then have "cells s \<subseteq> undetermined st" using assms(2) by (rule sound_cells)
  then show "cells s \<inter> (safes st \<union> mines st) = {}" by (rule undetermined_disjoint)
  show "(\<forall>op \<in> set ops. agrees M (init h w) op) \<longrightarrow> 0 \<le> count s \<and> count s \<le> int (card (cells s))"
  proof
    assume a: "\<forall>op \<in> set ops. agrees M (init h w) op"
    have snd: "sound {M} st"
      using sound_init _ assms(1) by (rule run_sound [THEN conjunct1]) (use a in simp)
    have fin: "finite (cells s)" using sound_cells [OF snd assms(2)] by (rule undetermined_finite)
    have "count s = int (card (cells s \<inter> M))" using sound_count [OF snd _ assms(2)] by simp
    moreover have "card (cells s \<inter> M) \<le> card (cells s)" using fin by (intro card_mono) auto
    ultimately show "0 \<le> count s \<and> count s \<le> int (card (cells s))" by simp
  qed
qed

text \<open>The sentence stored after two clues of the 3 by 3 scenario.\<close>

theorem sentence_invariant_witness:
  "run [Observe (1, 1) 1, Observe (0, 1) 1] (init 3 3) = Some kb_3x3_2 \<and>
   \<lparr>cells = {(0, 0), (0, 2), (1, 0), (1, 2)}, count = 1\<rparr> \<in> set (knowledge kb_3x3_2) \<and>
   {(0, 0), (0, 2), (1, 0), (1, 2)} \<inter> (safes kb_3x3_2 \<union> mines kb_3x3_2) = {} \<and>
   (0::int) \<le> 1 \<and> 1 \<le> int (card {(0::int, 0::int), (0, 2), (1, 0), (1, 2)})"
proof -
  have m: "\<lparr>cells = {(0, 0), (0, 2), (1, 0), (1, 2)}, count = 1\<rparr> \<in> set (knowledge kb_3x3_2)"
    by (simp add: kb_3x3_2_def)
  show ?thesis
    using sentence_invariant [OF run_3x3_two m, of "{(0, 0)}"] agrees_3x3_two run_3x3_two m
    by simp
qed

text \<open>
  Where the claim, as stated, fails: two clues in range, \<open>(0,0) -> 0\<close> and
  \<open>(1,1) -> 8\<close>, that no board can give together. The stored sentence has five cells and
  the count 8.
\<close>

theorem sentence_invariant_counterexample:
  "run [Observe (0, 0) 0, Observe (1, 1) 8] (init 3 3) =
     Some \<lparr>height = 3, width = 3, moves_made = {(1, 1), (0, 0)}, mines = {},
       safes = {(1, 1), (1, 0), (0, 1), (0, 0)},
       knowledge = [\<lparr>cells = {(0, 2), (1, 2), (2, 0), (2, 1), (2, 2)}, count = 8\<rparr>],
       KB_has_changed = False\<rparr>
   \<and> \<not> (8 \<le> int (card {(0::int, 2::int), (1, 2), (2, 0), (2, 1), (2, 2)}))"
proof
  show "run [Observe (0, 0) 0, Observe (1, 1) 8] (init 3 3) =
     Some \<lparr>height = 3, width = 3, moves_made = {(1, 1), (0, 0)}, mines = {},
       safes = {(1, 1), (1, 0), (0, 1), (0, 0)},
       knowledge = [\<lparr>cells = {(0, 2), (1, 2), (2, 0), (2, 1), (2, 2)}, count = 8\<rparr>],
       KB_has_changed = False\<rparr>"
    by code_simp
  show "\<not> (8 \<le> int (card {(0::int, 2::int), (1, 2), (2, 0), (2, 1), (2, 2)}))"
    by simp
qed

subsection \<open>C6: what stays in the knowledge list\<close>

text \<open>
  Claim C6, as the code has it. Sentences are never removed from the knowledge list: a
  sentence that resolves loses its cells and stays. When \<^verbatim>\<open>add_knowledge\<close> returns,
  called after any sequence of public operations on a fresh knowledge base, every stored
  sentence either has no cell left or is unresolved (its count is neither 0 nor the number
  of its cells), none of its cells is in \<open>safes\<close> or \<open>mines\<close>, and the list is no
  shorter than before the call.
\<close>

theorem sentences_after_observe:
  assumes "run ops (init h w) = Some st" and "add_knowledge c n st = Some st'"
    and "s \<in> set (knowledge st')"
  shows "(cells s = {} \<or> (count s \<noteq> 0 \<and> int (card (cells s)) \<noteq> count s)) \<and>
     cells s \<inter> (safes st' \<union> mines st') = {} \<and>
     length (knowledge st) \<le> length (knowledge st')"
proof -
  have snd: "sound {} st" using sound_init _ assms(1) by (rule run_sound [THEN conjunct1]) simp
  have "unresolved s" using add_knowledge_unresolved [OF snd assms(2)] assms(3) by blast
  then have 1: "cells s = {} \<or> (count s \<noteq> 0 \<and> int (card (cells s)) \<noteq> count s)"
    by (simp add: unresolved_def)
  have ex: "exec (Observe c n) st = Some st'" using assms(2) by simp
  have "sound {} st' \<and> height st' = height st \<and> width st' = width st"
    by (rule exec_sound [OF snd _ ex]) simp
  then have "sound {} st'" by simp
  then have "cells s \<subseteq> undetermined st'" using assms(3) by (rule sound_cells)
  then have 2: "cells s \<inter> (safes st' \<union> mines st') = {}" by (rule undetermined_disjoint)
  have l: "fixpoint_loop (entry_state c n st) = Some st'" using assms(2) by (simp add: add_knowledge_alt)
  have "sound {} (entry_state c n st)" using snd by (intro entry_state_sound) simp_all
  then have "length (knowledge (entry_state c n st)) \<le> length (knowledge st')"
    using fixpoint_loop_length [OF l] by simp
  then have 3: "length (knowledge st) \<le> length (knowledge st')"
    using entry_state_length [OF snd, of c n] by simp
  from 1 2 3 show ?thesis by simp
qed

text \<open>
  The 1 by 3 board: the sentence stored by the first clue is resolved by the second and
  stays, without cells.
\<close>

theorem sentences_after_observe_witness:
  "run [Observe (0, 1) 1] (init 1 3) = Some kb_1x3_1 \<and>
   add_knowledge (0, 0) 0 kb_1x3_1 = Some kb_1x3_2 \<and>
   \<lparr>cells = {}, count = 0\<rparr> \<in> set (knowledge kb_1x3_2) \<and>
   length (knowledge kb_1x3_1) \<le> length (knowledge kb_1x3_2)"
proof -
  have m: "\<lparr>cells = {}, count = 0\<rparr> \<in> set (knowledge kb_1x3_2)"
    by (simp add: kb_1x3_2_def)
  show ?thesis
    using sentences_after_observe [OF run_1x3_first add_knowledge_1x3_second m]
      run_1x3_first add_knowledge_1x3_second m
    by simp
qed

text \<open>
  Where the claim, as stated, fails: the same two clues on a fresh 1 by 3 board leave the
  empty sentence in the knowledge list.
\<close>

theorem sentences_after_observe_counterexample:
  "run [Observe (0, 1) 1, Observe (0, 0) 0] (init 1 3) =
     Some \<lparr>height = 1, width = 3, moves_made = {(0, 0), (0, 1)}, mines = {(0, 2)},
       safes = {(0, 0), (0, 1)}, knowledge = [\<lparr>cells = {}, count = 0\<rparr>],
       KB_has_changed = False\<rparr>"
  by code_simp

subsection \<open>C7: contradictory marks\<close>

text \<open>
  Claim C7, as the code has it. The source has no way to report a contradiction: no
  operation raises. Marking safe a cell that is a known mine is dropped without a word:
  the call returns, and the registries, the moves and the knowledge list are as before;
  only the change flag is cleared.
\<close>

theorem mark_safe_known_mine:
  assumes "c \<in> mines st"
  shows "exec (Mark_Safe c) st = Some (st\<lparr>KB_has_changed := False\<rparr>)"
  using assms by (simp add: mark_safe_def)

theorem mark_safe_known_mine_witness:
  "(0, 0) \<in> mines kb_mine \<and>
   exec (Mark_Safe (0, 0)) kb_mine = Some (kb_mine\<lparr>KB_has_changed := False\<rparr>)"
proof -
  have m: "(0, 0) \<in> mines kb_mine" by (simp add: kb_mine_def)
  show ?thesis using mark_safe_known_mine [OF m] m by simp
qed

text \<open>
  Where the claim, as stated, fails: the call returns a state, the mark is dropped and
  nothing is reported.
\<close>

theorem mark_safe_known_mine_counterexample:
  "exec (Mark_Safe (0, 0)) kb_mine =
     Some \<lparr>height = 3, width = 3, moves_made = {}, mines = {(0, 0)}, safes = {},
       knowledge = [], KB_has_changed = False\<rparr>"
  by code_simp

subsection \<open>C8: termination\<close>

text \<open>
  Claim C8. When the clues and marks given to a fresh knowledge base all agree with one
  mine layout, every call returns: the whole sequence of operations runs to its end, the
  fixed-point loop of every \<^verbatim>\<open>add_knowledge\<close> included. The calls of \<^verbatim>\<open>mark_mine\<close>,
  \<^verbatim>\<open>mark_safe\<close> and the two move queries return in every state.
\<close>

theorem operations_terminate:
  assumes "\<forall>op \<in> set ops. agrees M (init h w) op"
  shows "(\<exists>st. run ops (init h w) = Some st) \<and>
         (\<forall>st c. (\<exists>st'. exec (Mark_Mine c) st = Some st') \<and> (\<exists>st'. exec (Mark_Safe c) st = Some st') \<and>
            (\<exists>st'. exec Safe_Move st = Some st') \<and> (\<exists>st'. exec Random_Move st = Some st'))"
proof -
  have "\<exists>st. run ops (init h w) = Some st"
    using sound_init assms by (intro run_terminates [of M]) simp_all
  then show ?thesis by simp
qed

theorem operations_terminate_witness:
  "agrees {(0, 0)} (init 3 3) (Observe (1, 1) 1) \<and>
   agrees {(0, 0)} (init 3 3) (Observe (0, 1) 1) \<and>
   agrees {(0, 0)} (init 3 3) (Observe (1, 0) 1) \<and>
   (\<exists>st. run [Observe (1, 1) 1, Observe (0, 1) 1, Observe (1, 0) 1] (init 3 3) = Some st)"
  using operations_terminate [OF agrees_3x3] agrees_3x3 by simp

subsection \<open>C9: the safe move\<close>

text \<open>
  Claim C9. In a state whose set \<open>safes\<close> is finite (every Python set is),
  \<^verbatim>\<open>make_safe_move\<close> leaves the state as it is; it returns \<^verbatim>\<open>None\<close> when every
  safe cell has been played, and otherwise a cell that is in \<open>safes\<close> and not in
  \<open>moves_made\<close>.
\<close>

theorem safe_move_spec:
  assumes "finite (safes st)"
  shows "snd (make_safe_move st) = st \<and>
     (if safes st - moves_made st = {} then fst (make_safe_move st) = None
      else \<exists>c. fst (make_safe_move st) = Some c \<and> c \<in> safes st \<and> c \<notin> moves_made st)"
proof -
  let ?S = "safes st - moves_made st"
  have fin: "finite ?S" using assms by simp
  have eq: "make_safe_move st = (if card ?S > 0 then (Some (set_pop ?S), st) else (None, st))"
    by (simp add: make_safe_move_def Let_def)
  show ?thesis
  proof (cases "?S = {}")
    case True
    then have "card ?S = 0" by (simp only: card.empty)
    then have "make_safe_move st = (None, st)" unfolding eq by simp
    with True show ?thesis by simp
  next
    case False
    then have "card ?S > 0" using fin by (simp add: card_gt_0_iff)
    then have "make_safe_move st = (Some (set_pop ?S), st)" unfolding eq by simp
    moreover have "set_pop ?S \<in> ?S" using fin False by (rule set_pop_in)
    ultimately show ?thesis using False by simp
  qed
qed

theorem safe_move_spec_witness:
  "finite (safes kb_safe) \<and> snd (make_safe_move kb_safe) = kb_safe \<and>
   fst (make_safe_move kb_safe) = Some (2, 2)"
proof -
  have f: "finite (safes kb_safe)" by (simp add: kb_safe_def)
  show ?thesis using safe_move_spec [OF f] f by (auto simp: kb_safe_def)
qed

subsection \<open>C10: the registries only grow\<close>

text \<open>
  Claim C10. Whatever the state, a sequence of public operations that returns removes no
  cell from \<open>safes\<close>, \<open>mines\<close> or \<open>moves_made\<close>.
\<close>

theorem sets_grow:
  assumes "run ops st = Some st'"
  shows "safes st \<subseteq> safes st' \<and> mines st \<subseteq> mines st' \<and> moves_made st \<subseteq> moves_made st'"
  using run_grows [OF assms] by (simp add: grows_def)

theorem sets_grow_witness:
  "run [Observe (0, 1) 1, Observe (1, 0) 1] kb_3x3_1 = Some kb_3x3_3 \<and>
   safes kb_3x3_1 \<subseteq> safes kb_3x3_3 \<and> mines kb_3x3_1 \<subseteq> mines kb_3x3_3 \<and>
   moves_made kb_3x3_1 \<subseteq> moves_made kb_3x3_3"
  using sets_grow [OF run_3x3_rest] run_3x3_rest by simp

end
